theory Spec2Isabelle
  imports Main "HOL-Library.AList"
begin

section \<open>Strings\<close>

text \<open>
  A Python \<open>str\<close> is modelled as a \<open>string\<close> whose characters are the code points
  0..255.  The functions below are the library methods the configuration module calls:
  \<open>str.lower\<close>, \<open>str.strip\<close>, \<open>str.startswith\<close>, \<open>str.split(".")\<close>, \<open>".".join\<close>.
\<close>

definition lower_char :: "char \<Rightarrow> char" where
  "lower_char c =
     (let n = (of_char c :: nat)
      in if (65 \<le> n \<and> n \<le> 90) \<or> (192 \<le> n \<and> n \<le> 222 \<and> n \<noteq> 215)
         then char_of (n + 32) else c)"

definition lower :: "string \<Rightarrow> string" where
  "lower s = map lower_char s"

definition is_space :: "char \<Rightarrow> bool" where
  "is_space c = ((of_char c :: nat) \<in> {9, 10, 11, 12, 13, 28, 29, 30, 31, 32, 133, 160})"

definition strip :: "string \<Rightarrow> string" where
  "strip s = rev (dropWhile is_space (rev (dropWhile is_space s)))"

definition startswith :: "string \<Rightarrow> string \<Rightarrow> bool" where
  "startswith s p = (take (length p) s = p)"

fun split_dot :: "string \<Rightarrow> string list" where
  "split_dot [] = [[]]"
| "split_dot (c # cs) =
     (if c = CHR ''.'' then [] # split_dot cs
      else (case split_dot cs of w # ws \<Rightarrow> (c # w) # ws | [] \<Rightarrow> [[c]]))"

fun join_dot :: "string list \<Rightarrow> string" where
  "join_dot [] = []"
| "join_dot [w] = w"
| "join_dot (w # ws) = w @ ''.'' @ join_dot ws"

section \<open>Values, mappings and errors\<close>

text \<open>
  The values a configuration holds (\<open>Any\<close> in the source) are here \<open>None\<close>, booleans,
  integers, strings and \<open>Configuration\<close> objects (a read of a \<open>ConfigurationSet\<close> can
  store the latter); floats, bytes and lists are left out.  A \<open>Configuration\<close> has the
  two fields \<open>_lowercase\<close> and \<open>_config\<close>.  A Python \<open>dict\<close> is an association list in
  insertion order, and its keys are distinct.  A nested mapping, the input of the
  constructor and of \<open>update\<close>, has a value (\<open>Leaf\<close>) or another \<open>dict\<close> under each key.
\<close>

datatype val = VNone | VBool bool | VInt int | VStr string | VConf configuration
and configuration = Configuration (lowercase: bool) (config: "(string \<times> val) list")

type_synonym dict = "(string \<times> val) list"

datatype nested = Leaf val | Dict "(string \<times> nested) list"

text \<open>
  The exceptions the module raises or meets; \<open>KeyError\<close> carries its argument and
  \<open>Exception\<close> is the bare \<open>Exception()\<close> that \<open>_from_configs\<close> starts from.
\<close>

datatype error =
  KeyError string | ValueError | AttributeError | TypeError | AssertionError | IndexError
  | Exception

text \<open>\<open>d.update(other)\<close>: a key already there keeps its place, a new key goes last.\<close>

definition dict_update :: "('k \<times> 'v) list \<Rightarrow> ('k \<times> 'v) list \<Rightarrow> ('k \<times> 'v) list" where
  "dict_update d other = fold (\<lambda>(k, v). AList.update k v) other d"

text \<open>A dict comprehension or \<open>dict(pairs)\<close>: the pairs are stored one after the other.\<close>

definition dict_of :: "('k \<times> 'v) list \<Rightarrow> ('k \<times> 'v) list" where
  "dict_of ps = dict_update [] ps"

text \<open>A flat \<open>dict\<close> read as a nested mapping: no value of it is a \<open>dict\<close>.\<close>

definition as_nested :: "dict \<Rightarrow> (string \<times> nested) list" where
  "as_nested d = map (\<lambda>(k, v). (k, Leaf v)) d"

text \<open>
  The result of \<open>_get_subset\<close> is a \<open>dict\<close> or a stored value
  (\<open>Union[Dict[str, Any], Any]\<close>); \<open>d.get(p, {})\<close> is the stored value or the empty dict.
\<close>

datatype subset = SubDict dict | SubVal val

definition get_or_empty :: "dict \<Rightarrow> string \<Rightarrow> subset" where
  "get_or_empty d p = (case map_of d p of Some v \<Rightarrow> SubVal v | None \<Rightarrow> SubDict [])"

section \<open>Configuration\<close>

text \<open>
  \<open>_filter_dict\<close> and \<open>_flatten_dict\<close> read of \<open>self\<close> only \<open>_lowercase\<close>, which is
  their first argument here.  \<open>_flatten_dict\<close> walks the set of the keys whose value is
  a dict; the order of a Python set is not fixed, here it is the order of the mapping.
  The order shows only when two such keys give the same flat key: the value that is
  kept is the one of the key walked last.
\<close>

definition filter_dict :: "bool \<Rightarrow> dict \<Rightarrow> string \<Rightarrow> dict" where
  "filter_dict lc d prefix =
     (if lc
      then dict_of [(lower (drop (length prefix + 1) k), v).
                      (k, v) \<leftarrow> d, startswith k (prefix @ ''.'')]
      else dict_of [(drop (length prefix + 1) k, v).
                      (k, v) \<leftarrow> d, startswith k (prefix @ ''.'')])"

fun flatten_dict :: "bool \<Rightarrow> (string \<times> nested) list \<Rightarrow> dict" where
  "flatten_dict lc d =
     (if lc
      then dict_update
             (dict_of (concat (map (\<lambda>(k, x). case x of
                  Dict dk \<Rightarrow> map (\<lambda>(ki, vi). (lower k @ ''.'' @ ki, vi)) (flatten_dict lc dk)
                | Leaf v \<Rightarrow> []) d)))
             (concat (map (\<lambda>(k, x). case x of Leaf v \<Rightarrow> [(lower k, v)] | Dict dk \<Rightarrow> []) d))
      else dict_update
             (dict_of (concat (map (\<lambda>(k, x). case x of
                  Dict dk \<Rightarrow> map (\<lambda>(ki, vi). (k @ ''.'' @ ki, vi)) (flatten_dict lc dk)
                | Leaf v \<Rightarrow> []) d)))
             (concat (map (\<lambda>(k, x). case x of Leaf v \<Rightarrow> [(k, v)] | Dict dk \<Rightarrow> []) d)))"

declare flatten_dict.simps [simp del]

text \<open>The constructor \<open>Configuration(config_, lowercase_keys)\<close>.\<close>

definition init :: "(string \<times> nested) list \<Rightarrow> bool \<Rightarrow> configuration" where
  "init config' lowercase_keys = Configuration lowercase_keys (flatten_dict lowercase_keys config')"

text \<open>The \<open>while prefixes\<close> loop of \<open>_get_subset\<close>, on \<open>d\<close> and \<open>prefixes\<close>.\<close>

fun get_subset_loop :: "bool \<Rightarrow> dict \<Rightarrow> string list \<Rightarrow> subset" where
  "get_subset_loop lc d [] = SubDict d"
| "get_subset_loop lc d (p # ps) =
     (let new_d = filter_dict lc d p
      in if new_d = [] then (if ps = [] then get_or_empty d p else SubDict [])
         else get_subset_loop lc new_d ps)"

definition get_subset :: "configuration \<Rightarrow> string \<Rightarrow> subset" where
  "get_subset self prefix =
     (let d = dict_of [(drop (length prefix + 1) k, v).
                         (k, v) \<leftarrow> config self, startswith k (prefix @ ''.'')]
      in if d = []
         then (let prefixes = split_dot prefix
               in if length prefixes = 1 then get_or_empty (config self) prefix
                  else get_subset_loop (lowercase self) (config self) prefixes)
         else SubDict d)"

text \<open>
  \<open>__getitem__\<close>: \<open>v == {}\<close> holds of the empty dict only; of a stored \<open>Configuration\<close> it
  calls \<open>Configuration.__eq__\<close>, which asks the dict for \<open>as_dict\<close> and raises
  \<open>AttributeError\<close>.  A dict is returned wrapped in a new \<open>Configuration\<close>.
\<close>

definition getitem :: "configuration \<Rightarrow> string \<Rightarrow> error + val" where
  "getitem self item =
     (case get_subset self item of
        SubDict d \<Rightarrow> if d = [] then Inl (KeyError item)
                     else Inr (VConf (init (as_nested d) False))
      | SubVal (VConf c) \<Rightarrow> Inl AttributeError
      | SubVal v \<Rightarrow> Inr v)"

text \<open>\<open>as_dict\<close> hands out \<open>_config\<close>; \<open>get\<close> is \<open>dict.get\<close> on it.\<close>

definition as_dict :: "configuration \<Rightarrow> dict" where
  "as_dict self = config self"

definition get :: "configuration \<Rightarrow> string \<Rightarrow> val \<Rightarrow> val" where
  "get self key dflt = (case map_of (as_dict self) key of Some v \<Rightarrow> v | None \<Rightarrow> dflt)"

subsection \<open>Casting to bool\<close>

definition TRUTH_TEXT :: "string set" where
  "TRUTH_TEXT = {''t'', ''true'', ''y'', ''yes'', ''on'', ''1''}"

definition FALSE_TEXT :: "string set" where
  "FALSE_TEXT = {''f'', ''false'', ''n'', ''no'', ''off'', ''0'', []}"

text \<open>\<open>str(n)\<close> of an integer: its decimal digits, after a minus sign below zero.\<close>

fun digits :: "nat \<Rightarrow> string" where
  "digits n =
     (if n < 10 then [char_of (48 + n)] else digits (n div 10) @ [char_of (48 + n mod 10)])"

declare digits.simps [simp del]

definition str_int :: "int \<Rightarrow> string" where
  "str_int i = (if i < 0 then CHR ''-'' # digits (nat (- i)) else digits (nat i))"

text \<open>The last three lines of \<open>as_bool\<close>, on the text \<open>str(s)\<close>.\<close>

definition bool_text :: "string \<Rightarrow> error + bool" where
  "bool_text t =
     (let s = lower (strip t)
      in if s \<notin> TRUTH_TEXT \<and> s \<notin> FALSE_TEXT then Inl ValueError else Inr (s \<in> TRUTH_TEXT))"

text \<open>
  \<open>as_bool\<close>.  \<open>str(s)\<close> of a string is the string and of an integer its digits.  Of a
  \<open>Configuration\<close> it is \<open>__str__\<close>, which sorts \<open>self.items()\<close> and masks the values with
  \<open>clean\<close> and \<open>urlparse\<close>; that method is the parameter \<open>str_conf\<close> here, a text or the
  exception it raises.
\<close>

fun as_bool :: "(configuration \<Rightarrow> error + string) \<Rightarrow> val \<Rightarrow> error + bool" where
  "as_bool str_conf VNone = Inr False"
| "as_bool str_conf (VBool b) = Inr b"
| "as_bool str_conf (VStr s) = bool_text s"
| "as_bool str_conf (VInt n) = bool_text (str_int n)"
| "as_bool str_conf (VConf c) = (case str_conf c of Inl e \<Rightarrow> Inl e | Inr t \<Rightarrow> bool_text t)"

definition get_bool :: "(configuration \<Rightarrow> error + string) \<Rightarrow> configuration \<Rightarrow> string
    \<Rightarrow> error + bool" where
  "get_bool str_conf self item =
     (case getitem self item of Inl e \<Rightarrow> Inl e | Inr v \<Rightarrow> as_bool str_conf v)"

subsection \<open>Mutation\<close>

text \<open>
  A method that mutates \<open>self\<close> returns the new \<open>Configuration\<close>.  \<open>update\<close> takes a
  nested mapping; \<open>__setitem__\<close> is \<open>update\<close> with the one-item mapping \<open>{key: value}\<close>.
\<close>

definition update :: "configuration \<Rightarrow> (string \<times> nested) list \<Rightarrow> configuration" where
  "update self other =
     Configuration (lowercase self)
       (dict_update (config self) (flatten_dict (lowercase self) other))"

definition setitem :: "configuration \<Rightarrow> string \<Rightarrow> nested \<Rightarrow> configuration" where
  "setitem self key value = update self [(key, value)]"

definition no_key_message :: "string \<Rightarrow> string" where
  "no_key_message prefix =
     ''No key with prefix '' @ [char_of (39 :: nat)] @ prefix @ [char_of (39 :: nat)] @ '' found.''"

definition delitem :: "configuration \<Rightarrow> string \<Rightarrow> error + configuration" where
  "delitem self prefix =
     (let remove = [k. (k, v) \<leftarrow> config self,
                       (let kl = (if lowercase self then lower k else k)
                        in kl = prefix \<or> startswith kl (prefix @ ''.''))]
      in if remove = [] then Inl (KeyError (no_key_message prefix))
         else Inr (Configuration (lowercase self) (fold AList.delete remove (config self))))"

subsection \<open>Keys, and the mapping protocol of \<open>dict.update\<close>\<close>

text \<open>
  \<open>keys(levels)\<close> first reads the stored key \<open>"keys"\<close> and returns what \<open>self["keys"]\<close>
  gives, whatever it is; on \<open>KeyError\<close> only it returns the list of the keys cut to
  \<open>levels\<close> segments, without duplicates (built from a set: \<open>remdups\<close> fixes an order).
\<close>

datatype keys_result = KeyList "string list" | KeyVal val

definition keys :: "configuration \<Rightarrow> nat option \<Rightarrow> error + keys_result" where
  "keys self levels =
     (if levels = Some 0 then Inl AssertionError
      else case getitem self ''keys'' of
             Inr v \<Rightarrow> Inr (KeyVal v)
           | Inl (KeyError a) \<Rightarrow>
               Inr (KeyList (remdups (map (\<lambda>x. join_dot (case levels of
                                                  None \<Rightarrow> split_dot x
                                                | Some n \<Rightarrow> take n (split_dot x)))
                                      (map fst (as_dict self)))))
           | Inl e \<Rightarrow> Inl e)"

text \<open>
  \<open>result.update(v)\<close> with a \<open>Configuration\<close> \<open>v\<close> is the mapping protocol: the keys are
  \<open>list(v.keys())\<close>, and each key \<open>k\<close> is stored with \<open>v[k]\<close>.  \<open>keys_list\<close> is that list:
  a list is itself, a string gives its characters, a \<open>Configuration\<close> is iterated by
  \<open>__iter__\<close>, which is \<open>iter(self.keys())\<close> again, and nothing else can be iterated.
\<close>

function keys_list :: "configuration \<Rightarrow> error + string list" where
  "keys_list c =
     (case keys c None of
        Inl e \<Rightarrow> Inl e
      | Inr (KeyList ks) \<Rightarrow> Inr ks
      | Inr (KeyVal (VStr s)) \<Rightarrow> Inr (map (\<lambda>ch. [ch]) s)
      | Inr (KeyVal (VConf c')) \<Rightarrow> keys_list c'
      | Inr (KeyVal v) \<Rightarrow> Inl TypeError)"
  by pat_completeness auto
termination
proof (relation "measure (\<lambda>c. sum_list (map (length \<circ> fst) (config c)))")
  show "wf (measure (\<lambda>c. sum_list (map (length \<circ> fst) (config c))))"
    by simp
next
  fix c :: configuration and x1 x2 and c' :: configuration
  assume k: "keys c None = Inr x1" "x1 = KeyVal x2" "x2 = VConf c'"
  define kl :: "dict \<Rightarrow> nat" where "kl = (\<lambda>d. sum_list (map (length \<circ> fst) d))"
  have upd: "kl (AList.update a b d) \<le> kl d + length a" for a b d
    by (induction d) (auto simp: kl_def)
  have fold_upd: "kl (fold (\<lambda>(a, b). AList.update a b) ps d) \<le> kl d + kl ps" for ps d
  proof (induction ps arbitrary: d)
    case Nil
    then show ?case by (simp add: kl_def)
  next
    case (Cons p ps)
    obtain a b where p: "p = (a, b)" by (cases p)
    have "kl (fold (\<lambda>(a, b). AList.update a b) (p # ps) d)
          \<le> kl (AList.update a b d) + kl ps"
      using Cons.IH [of "AList.update a b d"] by (simp add: p)
    also have "\<dots> \<le> kl d + length a + kl ps"
      using upd [of a b d] by simp
    finally show ?case by (simp add: p kl_def)
  qed
  have dict_of_le: "kl (dict_of ps) \<le> kl ps" for ps :: dict
    using fold_upd [of ps "[]"] by (simp add: dict_of_def dict_update_def kl_def)
  have leaves: "concat (map (\<lambda>(k, x). case x of Leaf v \<Rightarrow> [(k, v)] | Dict dk \<Rightarrow> []) (as_nested d)) = d" for d
    by (induction d) (auto simp: as_nested_def)
  have nests: "concat (map (\<lambda>(k, x). case x of Dict dk \<Rightarrow> f k dk | Leaf v \<Rightarrow> []) (as_nested d)) = []" for d f
    by (induction d) (auto simp: as_nested_def)
  have flat: "flatten_dict False (as_nested d) = dict_of d" for d
    by (subst flatten_dict.simps) (simp add: leaves nests dict_of_def dict_update_def)
  have sw_len: "length p \<le> length s" if "startswith s p" for s p
  proof -
    from that have "length (take (length p) s) = length p"
      by (simp add: startswith_def)
    then show ?thesis by simp
  qed
  have strip_le: "kl [(drop (length p + 1) k, v). (k, v) \<leftarrow> d, startswith k (p @ ''.'')]
                  + length [(drop (length p + 1) k, v). (k, v) \<leftarrow> d, startswith k (p @ ''.'')]
                  \<le> kl d" for d p
  proof (induction d)
    case Nil
    then show ?case by (simp add: kl_def)
  next
    case (Cons e d)
    obtain a b where e: "e = (a, b)" by (cases e)
    show ?case
    proof (cases "startswith a (p @ ''.'')")
      case True
      then have "length p + 1 \<le> length a"
        using sw_len [of a "p @ ''.''"] by simp
      then show ?thesis using Cons.IH True by (simp add: e kl_def)
    next
      case False
      then show ?thesis using Cons.IH by (simp add: e kl_def)
    qed
  qed
  from k have g: "getitem c ''keys'' = Inr (VConf c')"
    by (auto simp: keys_def split: sum.splits error.splits)
  then obtain d where d: "get_subset c ''keys'' = SubDict d" "d \<noteq> []" "c' = init (as_nested d) False"
    by (auto simp: getitem_def split: subset.splits if_splits val.splits)
  let ?ps = "[(drop (length ''keys'' + 1) k, v). (k, v) \<leftarrow> config c, startswith k (''keys'' @ ''.'')]"
  have dps: "d = dict_of ?ps"
    using d(1,2) by (auto simp: get_subset_def Let_def get_or_empty_def split: if_splits option.splits)
  have "?ps \<noteq> []"
  proof
    assume "?ps = []"
    then have "dict_of ?ps = []" by (simp only: dict_of_def dict_update_def fold_simps)
    with dps d(2) show False by simp
  qed
  with dps have "d = dict_of ?ps \<and> ?ps \<noteq> []" by simp
  then have "kl (config c') < kl (config c)"
    using strip_le [of "''keys''" "config c"] dict_of_le [of ?ps] dict_of_le [of d]
    by (cases ?ps) (simp_all add: d(3) init_def flat)
  then show "(c', c) \<in> measure (\<lambda>c. sum_list (map (length \<circ> fst) (config c)))"
    by (simp add: kl_def)
qed

declare keys_list.simps [simp del]

definition update_from :: "dict \<Rightarrow> configuration \<Rightarrow> error + dict" where
  "update_from result v =
     (case keys_list v of
        Inl e \<Rightarrow> Inl e
      | Inr ks \<Rightarrow>
          fold (\<lambda>k r. case r of
                   Inl e \<Rightarrow> Inl e
                 | Inr d \<Rightarrow> (case getitem v k of
                              Inl e \<Rightarrow> Inl e
                            | Inr x \<Rightarrow> Inr (AList.update k x d)))
               ks (Inr result))"

section \<open>ConfigurationSet\<close>

text \<open>
  A \<open>ConfigurationSet\<close> has the list \<open>_configs\<close> of its layers, first the one read
  first, and the flag \<open>_writable\<close>.  The layers are \<open>Configuration\<close>s (a layer that is
  itself a \<open>ConfigurationSet\<close> is left out); the constructor refuses the empty list.
  A method that mutates the set returns the new set: the only layer it writes to is the
  one the set has created itself, so the list holds the layers as values.
\<close>

record configuration_set =
  configs :: "configuration list"
  writable :: bool

definition set_init :: "configuration list \<Rightarrow> error + configuration_set" where
  "set_init cs = (if cs = [] then Inl ValueError else Inr \<lparr>configs = cs, writable = False\<rparr>)"

fun is_conf :: "val \<Rightarrow> bool" where
  "is_conf (VConf c) = True"
| "is_conf v = False"

text \<open>
  The two merging loops of \<open>_from_configs\<close>, over \<open>values[::-1]\<close>: a value that is no
  \<open>Configuration\<close> is skipped (the first loop meets none), and the merged dict is wrapped
  in a new \<open>Configuration\<close>.
\<close>

definition merge_values :: "val list \<Rightarrow> error + val" where
  "merge_values vs =
     (case fold (\<lambda>v r. case r of
                   Inl e \<Rightarrow> Inl e
                 | Inr d \<Rightarrow> (case v of VConf c \<Rightarrow> update_from d c | _ \<Rightarrow> Inr d))
                vs (Inr [])
      of Inl e \<Rightarrow> Inl e
       | Inr result \<Rightarrow> Inr (VConf (init (as_nested result) False)))"

text \<open>
  \<open>_from_configs(attr, *args)\<close>: \<open>attr\<close> is the bound call \<open>getattr(config_, attr)(*args)\<close>
  as a function of the layer.  The first loop collects the values of the layers that do
  not raise, and keeps the last exception.
\<close>

definition collect :: "(configuration \<Rightarrow> error + val) \<Rightarrow> configuration list
    \<Rightarrow> val list \<times> error" where
  "collect attr cs =
     fold (\<lambda>c (vs, last_err). case attr c of
                                  Inr v \<Rightarrow> (vs @ [v], last_err)
                                | Inl err \<Rightarrow> (vs, err))
          cs ([], Exception)"

definition from_configs :: "configuration_set \<Rightarrow> (configuration \<Rightarrow> error + val)
    \<Rightarrow> error + val" where
  "from_configs self attr =
     (case collect attr (configs self) of
        (vs, last_err) \<Rightarrow>
          if vs = [] then Inl last_err
          else if list_all is_conf vs then merge_values (rev vs)
          else if is_conf (hd vs) then merge_values (rev vs)
          else Inr (hd vs))"

definition set_getitem :: "configuration_set \<Rightarrow> string \<Rightarrow> error + val" where
  "set_getitem self item = from_configs self (\<lambda>c. getitem c item)"

text \<open>
  \<open>_writable_config\<close> inserts the writable layer once; the layer it returns is
  \<open>_configs[0]\<close> of the new set.  \<open>__setitem__\<close> and \<open>update\<close> write into that layer.
\<close>

definition writable_config :: "configuration_set \<Rightarrow> configuration_set" where
  "writable_config self =
     (if \<not> writable self
      then (let lowercase = (configs self \<noteq> [] \<and> lowercase (hd (configs self)))
            in self\<lparr>configs := init [] lowercase # configs self, writable := True\<rparr>)
      else self)"

definition set_update :: "configuration_set \<Rightarrow> (string \<times> nested) list
    \<Rightarrow> error + configuration_set" where
  "set_update self other =
     (let s = writable_config self
      in case configs s of
           [] \<Rightarrow> Inl IndexError
         | cfg # rest \<Rightarrow> Inr (s\<lparr>configs := update cfg other # rest\<rparr>))"

definition set_setitem :: "configuration_set \<Rightarrow> string \<Rightarrow> nested
    \<Rightarrow> error + configuration_set" where
  "set_setitem self key value =
     (let s = writable_config self
      in case configs s of
           [] \<Rightarrow> Inl IndexError
         | cfg # rest \<Rightarrow> Inr (s\<lparr>configs := setitem cfg key value # rest\<rparr>))"

section \<open>The vocabulary of the properties\<close>

text \<open>
  \<open>subtree d p\<close> is the items of \<open>d\<close> whose key starts with \<open>p + "."\<close>, with that
  prefix cut off.  A \<open>Configuration\<close> is well formed when its keys are distinct, as in a
  Python dict, and, with \<open>lowercase_keys\<close>, are lower case; the constructor builds well
  formed configurations and the mutating methods keep them so.
\<close>

definition subtree :: "dict \<Rightarrow> string \<Rightarrow> dict" where
  "subtree d p = [(drop (length p + 1) k, v). (k, v) \<leftarrow> d, startswith k (p @ ''.'')]"

definition lowered :: "dict \<Rightarrow> bool" where
  "lowered d = (\<forall>k \<in> fst ` set d. lower k = k)"

definition well_formed :: "configuration \<Rightarrow> bool" where
  "well_formed c = (distinct (map fst (config c)) \<and> (lowercase c \<longrightarrow> lowered (config c)))"

text \<open>
  \<open>matches path k\<close>: the key \<open>k\<close> is \<open>path\<close> itself or lies under \<open>path + "."\<close>.
\<close>

definition matches :: "string \<Rightarrow> string \<Rightarrow> bool" where
  "matches path k = (k = path \<or> startswith k (path @ ''.''))"

text \<open>
  A view is plain when its keys are distinct, no value is a \<open>Configuration\<close> object, no
  key lies under another key followed by a dot, and no key is \<open>"keys"\<close> or lies under
  \<open>"keys."\<close>.  \<open>sub_config\<close> is the dict of a value that is a \<open>Configuration\<close>, and a
  value is plain when it is a scalar or a \<open>Configuration\<close> without \<open>lowercase_keys\<close> over
  a plain dict.
\<close>

definition plain :: "dict \<Rightarrow> bool" where
  "plain d = (distinct (map fst d)
              \<and> (\<forall>(k, v) \<in> set d. \<not> is_conf v \<and> subtree d k = [])
              \<and> map_of d ''keys'' = None \<and> subtree d ''keys'' = [])"

fun sub_config :: "val \<Rightarrow> dict" where
  "sub_config (VConf c) = config c"
| "sub_config v = []"

definition plain_value :: "val \<Rightarrow> bool" where
  "plain_value v = (case v of VConf c \<Rightarrow> \<not> lowercase c \<and> plain (config c) | _ \<Rightarrow> True)"

text \<open>
  \<open>layer_values attr cs\<close> is the values of the layers on which the call \<open>attr\<close> does not
  raise, in the order of the layers.
\<close>

definition layer_values :: "(configuration \<Rightarrow> error + val) \<Rightarrow> configuration list \<Rightarrow> val list" where
  "layer_values attr cs = concat (map (\<lambda>c. case attr c of Inr v \<Rightarrow> [v] | Inl e \<Rightarrow> []) cs)"

text \<open>
  The two mutations of a \<open>ConfigurationSet\<close>, \<open>self[key] = value\<close> and
  \<open>self.update(other)\<close>; a run of mutations stops at the first exception;
  \<open>write_layer\<close> is the same mutation on one \<open>Configuration\<close>.
\<close>

datatype mutation = SetItem string nested | Update "(string \<times> nested) list"

fun mutate :: "configuration_set \<Rightarrow> mutation \<Rightarrow> error + configuration_set" where
  "mutate s (SetItem key value) = set_setitem s key value"
| "mutate s (Update other) = set_update s other"

fun mutate_all :: "configuration_set \<Rightarrow> mutation list \<Rightarrow> error + configuration_set" where
  "mutate_all s [] = Inr s"
| "mutate_all s (m # ms) = (case mutate s m of Inl e \<Rightarrow> Inl e | Inr s' \<Rightarrow> mutate_all s' ms)"

fun write_layer :: "mutation \<Rightarrow> configuration \<Rightarrow> configuration" where
  "write_layer (SetItem key value) c = setitem c key value"
| "write_layer (Update other) c = update c other"

section \<open>Evaluation rules\<close>

lemma flatten_dict_Nil [simp]: "flatten_dict lc [] = []"
  by (subst flatten_dict.simps) (simp add: dict_of_def dict_update_def)

lemmas flatten_dict_Cons [simp] = flatten_dict.simps [of _ "p # d" for p d]

lemmas str_eval = lower_def lower_char_def char_of_def bit_0 strip_def is_space_def
  startswith_def

lemmas conf_eval = getitem_def get_subset_def filter_dict_def get_or_empty_def init_def
  dict_of_def dict_update_def as_nested_def

lemmas set_eval = set_getitem_def from_configs_def collect_def merge_values_def
  update_from_def keys_list.simps keys_def as_dict_def

section \<open>Lemmas\<close>

subsection \<open>Strings\<close>

lemma startswith_iff: "startswith k p \<longleftrightarrow> (\<exists>r. k = p @ r)"
  unfolding startswith_def
  by (metis append_eq_conv_conj append_take_drop_id)

lemma startswith_append [simp]: "startswith (p @ r) p"
  by (simp add: startswith_iff)

lemma startswith_drop: "startswith k p \<Longrightarrow> p @ drop (length p) k = k"
  by (auto simp: startswith_iff)

lemma split_dot_not_Nil [simp]: "split_dot s \<noteq> []"
  by (induction s) (auto split: list.splits)

lemma join_dot_Cons: "ws \<noteq> [] \<Longrightarrow> join_dot (w # ws) = w @ ''.'' @ join_dot ws"
  by (cases ws) simp_all

lemma join_split_dot [simp]: "join_dot (split_dot s) = s"
proof (induction s)
  case Nil
  then show ?case by simp
next
  case (Cons c s)
  show ?case
  proof (cases "c = CHR ''.''")
    case True
    then show ?thesis using Cons by (simp add: join_dot_Cons)
  next
    case False
    obtain w ws where ws: "split_dot s = w # ws"
      by (cases "split_dot s") simp_all
    show ?thesis
    proof (cases ws)
      case Nil
      then show ?thesis using Cons ws False by simp
    next
      case (Cons a list)
      then show ?thesis using Cons.IH ws False by simp
    qed
  qed
qed

lemma lower_append [simp]: "lower (a @ b) = lower a @ lower b"
  by (simp add: lower_def)

lemma lower_drop: "lower (drop n k) = drop n (lower k)"
  by (simp add: lower_def drop_map)

lemma lower_char_idem [simp]: "lower_char (lower_char c) = lower_char c"
proof -
  have "of_char c < (256 :: nat)" by simp
  then show ?thesis
    unfolding lower_char_def Let_def
    by (auto simp: )
qed

lemma lower_idem [simp]: "lower (lower s) = lower s"
  by (simp add: lower_def)

lemma lower_dot [simp]: "lower ''.'' = ''.''"
  by (simp add: lower_def lower_char_def)

lemma lower_Nil [simp]: "lower [] = []"
  by (simp add: lower_def)

lemma lower_Cons [simp]: "lower (c # s) = lower_char c # lower s"
  by (simp add: lower_def)

lemma lower_char_dot [simp]: "lower_char CHR ''.'' = CHR ''.''"
  by (simp add: lower_char_def)

lemma not_startswith_self: "\<not> startswith k (k @ ''.'')"
  by (simp add: startswith_iff)

lemma strip_core:
  assumes "\<forall>x \<in> set pre. is_space x" and "\<forall>x \<in> set post. is_space x"
    and "core = [] \<or> (\<not> is_space (hd core) \<and> \<not> is_space (last core))"
  shows "strip (pre @ core @ post) = core"
proof -
  have front: "dropWhile is_space (pre @ core @ post) = dropWhile is_space (core @ post)"
    using assms(1) by (simp add: dropWhile_append2)
  show ?thesis
  proof (cases core)
    case Nil
    have d: "dropWhile is_space (pre @ [] @ post) = []"
      using assms(1,2) by (auto simp: dropWhile_eq_Nil_conv)
    show ?thesis unfolding strip_def Nil d by simp
  next
    case (Cons a as)
    with assms(3) have hd: "\<not> is_space a" and last: "\<not> is_space (last core)"
      by simp_all
    have "dropWhile is_space (core @ post) = core @ post"
      using hd by (simp add: Cons)
    moreover have "dropWhile is_space (rev post @ rev core) = dropWhile is_space (rev core)"
      by (rule dropWhile_append2) (use assms(2) in auto)
    moreover have "dropWhile is_space (rev core) = rev core"
    proof (cases core rule: rev_cases)
      case Nil
      with Cons show ?thesis by simp
    next
      case (snoc bl l)
      with last have "\<not> is_space l" by simp
      then show ?thesis by (simp add: snoc)
    qed
    ultimately show ?thesis by (simp add: strip_def front)
  qed
qed

subsection \<open>Dicts\<close>

lemma update_fresh: "k \<notin> fst ` set d \<Longrightarrow> AList.update k v d = d @ [(k, v)]"
  by (induction d) auto

lemma dict_update_distinct:
  "distinct (map fst (d @ ps)) \<Longrightarrow> dict_update d ps = d @ ps"
proof (induction ps arbitrary: d)
  case Nil
  then show ?case by (simp add: dict_update_def)
next
  case (Cons p ps)
  obtain k v where p: "p = (k, v)" by (cases p)
  from Cons.prems have fresh: "k \<notin> fst ` set d" by (auto simp: p)
  have "dict_update d (p # ps) = dict_update (d @ [(k, v)]) ps"
    by (simp add: dict_update_def p update_fresh [OF fresh])
  also have "\<dots> = (d @ [(k, v)]) @ ps"
    using Cons.prems by (intro Cons.IH) (simp add: p)
  finally show ?case by (simp add: p)
qed

lemma dict_of_distinct: "distinct (map fst ps) \<Longrightarrow> dict_of ps = ps"
  using dict_update_distinct [of "[]" ps] by (simp add: dict_of_def)

lemma dict_of_Nil [simp]: "dict_of [] = []"
  by (simp add: dict_of_def dict_update_def)

lemma fst_dict_update: "fst ` set (dict_update d ps) = fst ` set d \<union> fst ` set ps"
proof (induction ps arbitrary: d)
  case Nil
  then show ?case by (simp add: dict_update_def)
next
  case (Cons p ps)
  obtain k v where p: "p = (k, v)" by (cases p)
  have "dict_update d (p # ps) = dict_update (AList.update k v d) ps"
    by (simp add: dict_update_def p)
  then show ?case
    using Cons.IH [of "AList.update k v d"] by (auto simp: p AList.dom_update)
qed

lemma distinct_dict_update:
  "distinct (map fst d) \<Longrightarrow> distinct (map fst (dict_update d ps))"
proof (induction ps arbitrary: d)
  case Nil
  then show ?case by (simp add: dict_update_def)
next
  case (Cons p ps)
  obtain k v where p: "p = (k, v)" by (cases p)
  have "dict_update d (p # ps) = dict_update (AList.update k v d) ps"
    by (simp add: dict_update_def p)
  then show ?case
    using Cons.IH [of "AList.update k v d"] Cons.prems by (simp add: AList.distinct_update)
qed

lemma distinct_dict_of: "distinct (map fst (dict_of ps))"
  by (simp add: dict_of_def distinct_dict_update)

lemma fold_delete: "fold AList.delete ks d = filter (\<lambda>(k, v). k \<notin> set ks) d"
proof (induction ks arbitrary: d)
  case Nil
  then show ?case by simp
next
  case (Cons k ks)
  have "filter (\<lambda>(k', v). k' \<notin> set ks) (AList.delete k d)
        = filter (\<lambda>(k', v). k' \<notin> set (k # ks)) d"
    by (induction d) (auto simp: AList.delete_eq)
  then show ?case using Cons.IH [of "AList.delete k d"] by simp
qed


subsection \<open>Subtrees\<close>

lemma subtree_Nil [simp]: "subtree [] p = []"
  by (simp add: subtree_def)

lemma subtree_Cons:
  "subtree ((k, v) # d) p =
     (if startswith k (p @ ''.'') then (drop (length p + 1) k, v) # subtree d p
      else subtree d p)"
  by (simp add: subtree_def)

lemma under_iff: "startswith k (p @ ''.'') \<longleftrightarrow> (\<exists>r. k = p @ ''.'' @ r)"
  by (simp add: startswith_iff)

lemma fst_subtree:
  "fst ` set (subtree d p) = {r. p @ ''.'' @ r \<in> fst ` set d}"
proof (induction d)
  case Nil
  then show ?case by simp
next
  case (Cons e d)
  obtain k v where e: "e = (k, v)" by (cases e)
  show ?case
  proof (cases "startswith k (p @ ''.'')")
    case True
    then obtain r where r: "k = p @ ''.'' @ r" by (auto simp: under_iff)
    then show ?thesis using Cons True by (auto simp: e subtree_Cons)
  next
    case False
    then have "\<And>r. k \<noteq> p @ ''.'' @ r" by (auto simp: under_iff)
    then show ?thesis using Cons False by (auto simp: e subtree_Cons)
  qed
qed

lemma distinct_subtree:
  "distinct (map fst d) \<Longrightarrow> distinct (map fst (subtree d p))"
proof (induction d)
  case Nil
  then show ?case by simp
next
  case (Cons e d)
  obtain k v where e: "e = (k, v)" by (cases e)
  show ?case
  proof (cases "startswith k (p @ ''.'')")
    case True
    then obtain r where r: "k = p @ ''.'' @ r" by (auto simp: under_iff)
    have "r \<notin> fst ` set (subtree d p)"
      using Cons.prems by (simp add: fst_subtree e r)
    then show ?thesis using Cons True by (simp add: e subtree_Cons r)
  next
    case False
    then show ?thesis using Cons by (simp add: e subtree_Cons)
  qed
qed

lemma map_of_subtree: "map_of (subtree d p) r = map_of d (p @ ''.'' @ r)"
proof (induction d)
  case Nil
  then show ?case by simp
next
  case (Cons e d)
  obtain k v where e: "e = (k, v)" by (cases e)
  show ?case
  proof (cases "startswith k (p @ ''.'')")
    case True
    then obtain r' where r: "k = p @ ''.'' @ r'" by (auto simp: under_iff)
    then show ?thesis using Cons True by (simp add: e subtree_Cons)
  next
    case False
    then have "k \<noteq> p @ ''.'' @ r" by (auto simp: under_iff)
    then show ?thesis using Cons False by (simp add: e subtree_Cons)
  qed
qed

lemma subtree_subtree: "subtree (subtree d p) q = subtree d (p @ ''.'' @ q)"
proof (induction d)
  case Nil
  then show ?case by simp
next
  case (Cons e d)
  obtain k v where e: "e = (k, v)" by (cases e)
  show ?case
  proof (cases "startswith k (p @ ''.'')")
    case True
    then obtain r where r: "k = p @ ''.'' @ r" by (auto simp: under_iff)
    have "startswith k ((p @ ''.'' @ q) @ ''.'') \<longleftrightarrow> startswith r (q @ ''.'')"
      by (auto simp: startswith_iff r)
    then show ?thesis using Cons True by (simp add: e subtree_Cons r)
  next
    case False
    then have "\<not> startswith k ((p @ ''.'' @ q) @ ''.'')"
      by (auto simp: startswith_iff)
    then show ?thesis using Cons False by (simp add: e subtree_Cons)
  qed
qed

lemma subtree_empty_iff:
  "subtree d p = [] \<longleftrightarrow> (\<forall>k \<in> fst ` set d. \<not> startswith k (p @ ''.''))"
  by (induction d) (auto simp: subtree_Cons split: if_splits)

lemma subtree_update_other:
  "\<not> startswith k (p @ ''.'') \<Longrightarrow> subtree (AList.update k v d) p = subtree d p"
  by (induction d) (auto simp: subtree_def)

lemma lowered_subtree: "lowered d \<Longrightarrow> lowered (subtree d p)"
proof -
  assume l: "lowered d"
  have "lower r = r" if "r \<in> fst ` set (subtree d p)" for r
  proof -
    from that have "p @ ''.'' @ r \<in> fst ` set d" by (simp add: fst_subtree)
    with l have "lower (p @ ''.'' @ r) = p @ ''.'' @ r"
      unfolding lowered_def by blast
    then have "map lower_char (p @ ''.'') @ map lower_char r = (p @ ''.'') @ r"
      by (simp add: lower_def)
    then have "map lower_char r = r"
      by (subst (asm) append_eq_append_conv) simp_all
    then show ?thesis by (simp add: lower_def)
  qed
  then show ?thesis by (auto simp: lowered_def)
qed

lemma map_lower_lowered:
  "lowered d \<Longrightarrow> map (\<lambda>(k, v). (lower k, v)) d = d"
  by (induction d) (auto simp: lowered_def)

lemma filter_dict_subtree:
  assumes "distinct (map fst d)" and "lc \<longrightarrow> lowered d"
  shows "filter_dict lc d p = subtree d p"
proof -
  have plain: "dict_of (subtree d p) = subtree d p"
    using assms(1) by (simp add: dict_of_distinct distinct_subtree)
  have low: "[(lower (drop (length p + 1) k), v). (k, v) \<leftarrow> d, startswith k (p @ ''.'')]
             = map (\<lambda>(k, v). (lower k, v)) (subtree d p)"
    by (induction d) (auto simp: subtree_Cons)
  show ?thesis
  proof (cases lc)
    case True
    with assms(2) have "lowered (subtree d p)" by (simp add: lowered_subtree)
    then show ?thesis using True plain
      by (simp add: filter_dict_def low map_lower_lowered)
  next
    case False
    then show ?thesis using plain by (simp add: filter_dict_def subtree_def)
  qed
qed

text \<open>The loop of \<open>get_subset\<close> when no key lies under the whole path.\<close>

lemma get_subset_loop_exact:
  assumes "distinct (map fst d)" and "lc \<longrightarrow> lowered d"
    and "subtree d (join_dot (p # ps)) = []"
  shows "get_subset_loop lc d (p # ps) = get_or_empty d (join_dot (p # ps))"
  using assms
proof (induction ps arbitrary: d p)
  case Nil
  then show ?case by (simp add: filter_dict_subtree)
next
  case (Cons q qs)
  have new: "filter_dict lc d p = subtree d p"
    using Cons.prems by (simp add: filter_dict_subtree)
  have j: "join_dot (p # q # qs) = p @ ''.'' @ join_dot (q # qs)" by simp
  have look: "map_of d (join_dot (p # q # qs)) = map_of (subtree d p) (join_dot (q # qs))"
    by (simp only: j map_of_subtree)
  show ?case
  proof (cases "subtree d p = []")
    case True
    then have "map_of d (join_dot (p # q # qs)) = None"
      by (simp only: look) simp
    then show ?thesis using True new by (simp add: get_or_empty_def)
  next
    case False
    have "get_subset_loop lc (subtree d p) (q # qs)
          = get_or_empty (subtree d p) (join_dot (q # qs))"
    proof (rule Cons.IH)
      show "distinct (map fst (subtree d p))"
        using Cons.prems(1) by (rule distinct_subtree)
      show "lc \<longrightarrow> lowered (subtree d p)"
        using Cons.prems(2) by (simp add: lowered_subtree)
      show "subtree (subtree d p) (join_dot (q # qs)) = []"
        using Cons.prems(3) by (simp only: subtree_subtree j)
    qed
    then show ?thesis using False new look
      by (simp add: get_or_empty_def del: join_dot.simps)
  qed
qed

lemma get_subset_well_formed:
  assumes "well_formed c"
  shows "get_subset c p =
           (if subtree (config c) p \<noteq> [] then SubDict (subtree (config c) p)
            else get_or_empty (config c) p)"
proof -
  have d: "distinct (map fst (config c))" and l: "lowercase c \<longrightarrow> lowered (config c)"
    using assms by (simp_all add: well_formed_def)
  have first: "dict_of [(drop (length p + 1) k, v). (k, v) \<leftarrow> config c, startswith k (p @ ''.'')]
               = subtree (config c) p"
    using dict_of_distinct [OF distinct_subtree [OF d, of p]] by (simp add: subtree_def)
  show ?thesis
  proof (cases "subtree (config c) p = []")
    case False
    then show ?thesis by (simp add: get_subset_def first)
  next
    case True
    obtain w ws where sp: "split_dot p = w # ws"
      by (cases "split_dot p") simp_all
    have jp: "join_dot (w # ws) = p"
      using join_split_dot [of p] by (simp only: sp)
    have "get_subset_loop (lowercase c) (config c) (w # ws) = get_or_empty (config c) p"
      using get_subset_loop_exact [OF d l, of w ws] True by (simp only: jp)
    then show ?thesis using True by (simp add: get_subset_def first sp)
  qed
qed

subsection \<open>Flattening a flat mapping, and \<open>__getitem__\<close>\<close>

lemma leaves_as_nested:
  "concat (map (\<lambda>(k, x). case x of Leaf v \<Rightarrow> [(f k, v)] | Dict dk \<Rightarrow> []) (as_nested d))
   = map (\<lambda>(k, v). (f k, v)) d"
  by (induction d) (auto simp: as_nested_def)

lemma nests_as_nested:
  "concat (map (\<lambda>(k, x). case x of Dict dk \<Rightarrow> g k dk | Leaf v \<Rightarrow> []) (as_nested d)) = []"
  by (induction d) (auto simp: as_nested_def)

lemma flatten_dict_flat:
  "flatten_dict lc (as_nested d) = dict_of (map (\<lambda>(k, v). (if lc then lower k else k, v)) d)"
  by (subst flatten_dict.simps)
     (simp add: leaves_as_nested nests_as_nested dict_of_def dict_update_def)

lemma init_flat:
  "distinct (map fst d) \<Longrightarrow> init (as_nested d) False = Configuration False d"
  by (simp add: init_def flatten_dict_flat dict_of_distinct)

lemma getitem_well_formed:
  assumes "well_formed c"
  shows "getitem c p =
           (if subtree (config c) p \<noteq> []
            then Inr (VConf (Configuration False (subtree (config c) p)))
            else case map_of (config c) p of
                   None \<Rightarrow> Inl (KeyError p)
                 | Some v \<Rightarrow> if is_conf v then Inl AttributeError else Inr v)"
proof -
  have d: "distinct (map fst (subtree (config c) p))"
    using assms by (simp add: well_formed_def distinct_subtree)
  show ?thesis
    by (cases "map_of (config c) p")
       (auto simp: getitem_def get_subset_well_formed [OF assms] get_or_empty_def
          init_flat [OF d] split: val.splits)
qed

subsection \<open>The constructor and the mutating methods keep a configuration well formed\<close>

lemma distinct_flatten_dict: "distinct (map fst (flatten_dict lc m))"
  by (subst flatten_dict.simps) (simp add: distinct_dict_update distinct_dict_of)

lemma lowered_dict_update: "lowered d \<Longrightarrow> lowered ps \<Longrightarrow> lowered (dict_update d ps)"
  by (auto simp: lowered_def fst_dict_update)

lemma lowered_dict_of: "lowered ps \<Longrightarrow> lowered (dict_of ps)"
  unfolding dict_of_def by (rule lowered_dict_update) (simp_all add: lowered_def)

lemma lowered_flatten_dict_aux: "lc \<Longrightarrow> lowered (flatten_dict lc m)"
proof (induction lc m rule: flatten_dict.induct)
  case (1 lc d)
  have nests: "lowered (concat (map (\<lambda>(k, x). case x of
                  Dict dk \<Rightarrow> map (\<lambda>(ki, vi). (lower k @ ''.'' @ ki, vi)) (flatten_dict lc dk)
                | Leaf v \<Rightarrow> []) d))"
    unfolding lowered_def
  proof
    fix key
    assume "key \<in> fst ` set (concat (map (\<lambda>(k, x). case x of
                  Dict dk \<Rightarrow> map (\<lambda>(ki, vi). (lower k @ ''.'' @ ki, vi)) (flatten_dict lc dk)
                | Leaf v \<Rightarrow> []) d))"
    then obtain k dk ki vi where in_d: "(k, Dict dk) \<in> set d"
      and in_dk: "(ki, vi) \<in> set (flatten_dict lc dk)"
      and key: "key = lower k @ ''.'' @ ki"
      by (auto split: nested.splits)
    from "1.IH"(1) [OF "1.prems" in_d refl refl "1.prems"]
    have "lowered (flatten_dict lc dk)" .
    with in_dk have "lower ki = ki" by (force simp: lowered_def)
    then show "lower key = key" by (simp add: key)
  qed
  have leaves: "lowered (concat (map (\<lambda>(k, x). case x of
                  Leaf v \<Rightarrow> [(lower k, v)] | Dict dk \<Rightarrow> []) d))"
    by (auto simp: lowered_def split: nested.splits)
  have low_nests: "lowered (dict_of (concat (map (\<lambda>(k, x). case x of
                  Dict dk \<Rightarrow> map (\<lambda>(ki, vi). (lower k @ ''.'' @ ki, vi)) (flatten_dict lc dk)
                | Leaf v \<Rightarrow> []) d)))"
    using nests by (rule lowered_dict_of)
  have eq: "flatten_dict lc d =
      dict_update
        (dict_of (concat (map (\<lambda>(k, x). case x of
                  Dict dk \<Rightarrow> map (\<lambda>(ki, vi). (lower k @ ''.'' @ ki, vi)) (flatten_dict lc dk)
                | Leaf v \<Rightarrow> []) d)))
        (concat (map (\<lambda>(k, x). case x of Leaf v \<Rightarrow> [(lower k, v)] | Dict dk \<Rightarrow> []) d))"
    by (subst flatten_dict.simps) (rule if_P [OF "1.prems"])
  show ?case
    unfolding eq using low_nests leaves by (rule lowered_dict_update)
qed

lemma lowered_flatten_dict: "lowered (flatten_dict True m)"
  by (simp add: lowered_flatten_dict_aux)

lemma well_formed_init: "well_formed (init m lc)"
  by (simp add: well_formed_def init_def distinct_flatten_dict lowered_flatten_dict)

lemma well_formed_update: "well_formed c \<Longrightarrow> well_formed (update c other)"
  by (auto simp: well_formed_def update_def distinct_dict_update lowered_dict_update
        lowered_flatten_dict)

lemma well_formed_setitem: "well_formed c \<Longrightarrow> well_formed (setitem c k x)"
  by (simp add: setitem_def well_formed_update)

lemma well_formed_delitem:
  assumes "well_formed c" and "delitem c p = Inr c'"
  shows "well_formed c'"
proof -
  from assms(2) obtain ks where c': "c' = Configuration (lowercase c) (fold AList.delete ks (config c))"
    by (auto simp: delitem_def Let_def split: if_splits)
  show ?thesis
    using assms(1) by (auto simp: c' fold_delete well_formed_def lowered_def distinct_map_filter)
qed

subsection \<open>Further facts the claims use\<close>

lemma setitem_leaf:
  "setitem c k (Leaf v) =
     Configuration (lowercase c)
       (AList.update (if lowercase c then lower k else k) v (config c))"
  by (simp add: setitem_def update_def dict_update_def dict_of_def)

lemma flatten_dict_fixed:
  assumes "distinct (map fst d)" and "lc \<longrightarrow> lowered d"
  shows "flatten_dict lc (as_nested d) = d"
proof -
  have "map (\<lambda>(k, v). (if lc then lower k else k, v)) d = d"
    using assms(2) by (cases lc) (simp_all add: map_lower_lowered)
  then show ?thesis
    using assms(1) by (simp add: flatten_dict_flat dict_of_distinct)
qed

lemma lookup_not_folded:
  assumes "well_formed c" and "lowercase c" and "lower k \<noteq> k"
  shows "getitem c k = Inl (KeyError k)"
proof -
  from assms have low: "lowered (config c)" by (simp add: well_formed_def)
  have none: "map_of (config c) k = None"
  proof (cases "map_of (config c) k")
    case (Some v)
    then have "(k, v) \<in> set (config c)" by (rule map_of_SomeD)
    then have "k \<in> fst ` set (config c)" by (rule rev_image_eqI) simp
    with low assms(3) show ?thesis by (auto simp: lowered_def)
  qed simp
  have "subtree (config c) k = []"
  proof (rule ccontr)
    assume "subtree (config c) k \<noteq> []"
    then obtain key where key: "key \<in> fst ` set (config c)" "startswith key (k @ ''.'')"
      by (auto simp: subtree_empty_iff)
    then obtain r where r: "key = k @ ''.'' @ r" by (auto simp: under_iff)
    from low key(1) have "lower key = key" by (auto simp: lowered_def)
    then have "lower k @ lower (''.'' @ r) = k @ (''.'' @ r)"
      by (simp add: r)
    then have "lower k = k"
      by (subst (asm) append_eq_append_conv) (simp_all add: lower_def)
    with assms(3) show False by simp
  qed
  with none show ?thesis by (simp add: getitem_well_formed [OF assms(1)])
qed

subsection \<open>The layers of a \<open>ConfigurationSet\<close>\<close>

lemma collect_fold:
  "fold (\<lambda>c (vs, last_err). case attr c of
                                  Inr v \<Rightarrow> (vs @ [v], last_err)
                                | Inl err \<Rightarrow> (vs, err)) cs (vs0, e0)
   = (vs0 @ layer_values attr cs,
      fold (\<lambda>c e. case attr c of Inr v \<Rightarrow> e | Inl err \<Rightarrow> err) cs e0)"
  by (induction cs arbitrary: vs0 e0) (auto simp: layer_values_def split: sum.splits)

lemma collect_eq:
  "collect attr cs =
     (layer_values attr cs, fold (\<lambda>c e. case attr c of Inr v \<Rightarrow> e | Inl err \<Rightarrow> err) cs Exception)"
  by (simp add: collect_def collect_fold)

lemma layer_values_append:
  "layer_values attr (xs @ ys) = layer_values attr xs @ layer_values attr ys"
  by (simp add: layer_values_def)

lemma layer_values_raising:
  "\<forall>x \<in> set cs. isl (attr x) \<Longrightarrow> layer_values attr cs = []"
  by (induction cs) (auto simp: layer_values_def split: sum.splits)

lemma last_error_raising:
  "cs \<noteq> [] \<Longrightarrow> isl (attr (last cs)) \<Longrightarrow>
   fold (\<lambda>c e. case attr c of Inr v \<Rightarrow> e | Inl err \<Rightarrow> err) cs e0 = projl (attr (last cs))"
  by (induction cs arbitrary: e0) (auto split: sum.splits)

lemma mutate_not_writable:
  assumes "\<not> writable s"
  shows "mutate s m =
           Inr \<lparr>configs = write_layer m (init [] (configs s \<noteq> [] \<and> lowercase (hd (configs s))))
                           # configs s,
                writable = True\<rparr>"
  using assms by (cases m) (simp_all add: set_setitem_def set_update_def writable_config_def Let_def)

lemma mutate_writable:
  assumes "writable s" and "configs s = w # rest"
  shows "mutate s m = Inr \<lparr>configs = write_layer m w # rest, writable = True\<rparr>"
  using assms by (cases m) (simp_all add: set_setitem_def set_update_def writable_config_def)

lemma mutate_all_writable:
  "mutate_all \<lparr>configs = w # rest, writable = True\<rparr> ms
     = Inr \<lparr>configs = fold write_layer ms w # rest, writable = True\<rparr>"
proof (induction ms arbitrary: w)
  case Nil
  then show ?case by simp
next
  case (Cons m ms)
  have "mutate \<lparr>configs = w # rest, writable = True\<rparr> m
        = Inr \<lparr>configs = write_layer m w # rest, writable = True\<rparr>"
    by (rule mutate_writable) simp_all
  then show ?case using Cons.IH [of "write_layer m w"] by simp
qed

subsection \<open>The mapping protocol on a plain view\<close>

lemma well_formed_plain: "plain d \<Longrightarrow> well_formed (Configuration False d)"
  by (simp add: plain_def well_formed_def)

lemma keys_plain:
  assumes "plain d"
  shows "keys (Configuration False d) None = Inr (KeyList (map fst d))"
proof -
  have "getitem (Configuration False d) ''keys'' = Inl (KeyError ''keys'')"
    using assms by (simp add: getitem_well_formed [OF well_formed_plain [OF assms]] plain_def)
  moreover have "remdups (map fst d) = map fst d"
    using assms by (simp add: plain_def distinct_remdups_id)
  ultimately show ?thesis
    by (simp add: keys_def as_dict_def)
qed

lemma keys_list_plain: "plain d \<Longrightarrow> keys_list (Configuration False d) = Inr (map fst d)"
  by (subst keys_list.simps) (simp add: keys_plain)

lemma getitem_plain:
  assumes "plain d" and "(k, v) \<in> set d"
  shows "getitem (Configuration False d) k = Inr v"
proof -
  from assms have "map_of d k = Some v" "\<not> is_conf v" "subtree d k = []"
    by (auto simp: plain_def)
  then show ?thesis
    by (simp add: getitem_well_formed [OF well_formed_plain [OF assms(1)]])
qed

lemma fold_getitem_plain:
  assumes "plain d" and "set ps \<subseteq> set d"
  shows "fold (\<lambda>k r. case r of
                   Inl e \<Rightarrow> Inl e
                 | Inr acc \<Rightarrow> (case getitem (Configuration False d) k of
                              Inl e \<Rightarrow> Inl e
                            | Inr x \<Rightarrow> Inr (AList.update k x acc)))
              (map fst ps) (Inr acc)
         = Inr (dict_update acc ps)"
  using assms(2)
proof (induction ps arbitrary: acc)
  case Nil
  then show ?case by (simp add: dict_update_def)
next
  case (Cons e ps)
  obtain k v where e: "e = (k, v)" by (cases e)
  with Cons.prems have "getitem (Configuration False d) k = Inr v"
    by (intro getitem_plain [OF assms(1)]) simp
  then show ?case
    using Cons.IH [of "AList.update k v acc"] Cons.prems by (simp add: e dict_update_def)
qed

lemma update_from_plain:
  "plain d \<Longrightarrow> update_from acc (Configuration False d) = Inr (dict_update acc d)"
  by (simp add: update_from_def keys_list_plain fold_getitem_plain)

subsection \<open>Merging the sub-views\<close>

lemma dict_update_Nil [simp]: "dict_update d [] = d"
  by (simp add: dict_update_def)

lemma merge_fold_plain:
  assumes "\<forall>v \<in> set vs. plain_value v"
  shows "fold (\<lambda>v r. case r of
                   Inl e \<Rightarrow> Inl e
                 | Inr d \<Rightarrow> (case v of VConf c \<Rightarrow> update_from d c | _ \<Rightarrow> Inr d))
              vs (Inr acc)
         = Inr (fold (\<lambda>v d. dict_update d (sub_config v)) vs acc)"
  using assms
proof (induction vs arbitrary: acc)
  case Nil
  then show ?case by simp
next
  case (Cons v vs)
  have step: "(case v of VConf c \<Rightarrow> update_from acc c | _ \<Rightarrow> Inr acc)
              = Inr (dict_update acc (sub_config v))"
  proof (cases v)
    case (VConf c)
    with Cons.prems have "\<not> lowercase c" "plain (config c)"
      by (simp_all add: plain_value_def)
    then have "update_from acc c = Inr (dict_update acc (config c))"
      using update_from_plain [of "config c" acc] by (cases c) simp
    then show ?thesis by (simp add: VConf)
  qed simp_all
  show ?case
    using Cons.IH [of "dict_update acc (sub_config v)"] Cons.prems by (simp add: step)
qed

lemma map_of_dict_update_apply:
  "distinct (map fst ps) \<Longrightarrow>
   map_of (dict_update d ps) x = (case map_of ps x of None \<Rightarrow> map_of d x | Some y \<Rightarrow> Some y)"
proof (induction ps arbitrary: d)
  case Nil
  then show ?case by simp
next
  case (Cons e ps)
  obtain k v where e: "e = (k, v)" by (cases e)
  from Cons.prems have fresh: "map_of ps k = None"
    by (simp add: e map_of_eq_None_iff)
  have unfold: "dict_update d ((k, v) # ps) = dict_update (AList.update k v d) ps"
    by (simp add: dict_update_def)
  have "map_of (dict_update (AList.update k v d) ps) x
        = (case map_of ps x of None \<Rightarrow> map_of (AList.update k v d) x | Some y \<Rightarrow> Some y)"
    using Cons.prems by (intro Cons.IH) simp
  then show ?case
    using fresh
    by (cases "x = k") (simp_all add: unfold e AList.update_conv' split: option.splits)
qed

lemma map_of_dict_update:
  "distinct (map fst ps) \<Longrightarrow> map_of (dict_update d ps) = map_of d ++ map_of ps"
  by (rule ext) (simp add: map_of_dict_update_apply map_add_def)

lemma distinct_merged:
  "distinct (map fst acc) \<Longrightarrow>
   distinct (map fst (fold (\<lambda>v d. dict_update d (sub_config v)) vs acc))"
  by (induction vs arbitrary: acc) (simp_all add: distinct_dict_update)

lemma map_of_merged:
  assumes "\<forall>v \<in> set vs. distinct (map fst (sub_config v))"
  shows "map_of (fold (\<lambda>v d. dict_update d (sub_config v)) (rev vs) [])
         = map_of (concat (map sub_config vs))"
  using assms
proof (induction vs)
  case Nil
  then show ?case by simp
next
  case (Cons v vs)
  then show ?case by (simp add: map_of_dict_update)
qed

lemma merge_values_plain:
  assumes "\<forall>v \<in> set vs. plain_value v"
  shows "\<exists>merged. merge_values (rev vs) = Inr (VConf (Configuration False merged))
           \<and> distinct (map fst merged)
           \<and> map_of merged = map_of (concat (map sub_config vs))"
proof -
  let ?m = "fold (\<lambda>v d. dict_update d (sub_config v)) (rev vs) []"
  have d: "distinct (map fst ?m)"
    by (rule distinct_merged) simp
  have "\<forall>v \<in> set vs. distinct (map fst (sub_config v))"
  proof
    fix v assume "v \<in> set vs"
    with assms have "plain_value v" by simp
    then show "distinct (map fst (sub_config v))"
      by (cases v) (simp_all add: plain_value_def plain_def)
  qed
  then have m: "map_of ?m = map_of (concat (map sub_config vs))"
    by (rule map_of_merged)
  have "merge_values (rev vs) = Inr (VConf (Configuration False ?m))"
    using assms by (simp add: merge_values_def merge_fold_plain init_flat [OF d])
  with d m show ?thesis by blast
qed

lemma subtree_append: "subtree (xs @ ys) p = subtree xs p @ subtree ys p"
  by (simp add: subtree_def)

lemma subtree_concat: "subtree (concat ds) p = concat (map (\<lambda>d. subtree d p) ds)"
  by (induction ds) (simp_all add: subtree_append)

lemma sub_config_scalar: "\<not> is_conf v \<Longrightarrow> sub_config v = []"
  by (cases v) simp_all

lemma plain_value_scalar: "\<not> is_conf v \<Longrightarrow> plain_value v"
  by (cases v) (simp_all add: plain_value_def)

lemma getitem_value_cases:
  assumes "well_formed c" and "getitem c p = Inr v"
  shows "(subtree (config c) p \<noteq> [] \<and> v = VConf (Configuration False (subtree (config c) p)))
         \<or> (subtree (config c) p = [] \<and> \<not> is_conf v)"
  using assms(2)
  by (auto simp: getitem_well_formed [OF assms(1)] split: if_splits option.splits)

lemma sub_config_layer:
  assumes "well_formed c"
  shows "concat (map sub_config (case getitem c p of Inr v \<Rightarrow> [v] | Inl e \<Rightarrow> []))
         = subtree (config c) p"
proof (cases "getitem c p")
  case (Inl e)
  then have "subtree (config c) p = []"
    by (auto simp: getitem_well_formed [OF assms] split: if_splits)
  with Inl show ?thesis by simp
next
  case (Inr v)
  from getitem_value_cases [OF assms Inr] show ?thesis
    by (auto simp: Inr sub_config_scalar)
qed

lemma sub_config_layers:
  assumes "\<forall>c \<in> set cs. well_formed c"
  shows "concat (map sub_config (layer_values (\<lambda>c. getitem c p) cs))
         = concat (map (\<lambda>c. subtree (config c) p) cs)"
  using assms
proof (induction cs)
  case Nil
  then show ?case by (simp add: layer_values_def)
next
  case (Cons c cs)
  have "layer_values (\<lambda>c. getitem c p) (c # cs)
        = (case getitem c p of Inr v \<Rightarrow> [v] | Inl e \<Rightarrow> []) @ layer_values (\<lambda>c. getitem c p) cs"
    by (simp add: layer_values_def)
  then show ?case
    using Cons sub_config_layer [of c p] by simp
qed

lemma plain_layer_values:
  assumes "\<forall>c \<in> set cs. well_formed c \<and> plain (subtree (config c) p)"
  shows "\<forall>v \<in> set (layer_values (\<lambda>c. getitem c p) cs). plain_value v"
proof
  fix v
  assume "v \<in> set (layer_values (\<lambda>c. getitem c p) cs)"
  then obtain c where c: "c \<in> set cs" "getitem c p = Inr v"
    by (auto simp: layer_values_def split: sum.splits)
  with assms have wf: "well_formed c" and pl: "plain (subtree (config c) p)"
    by simp_all
  from getitem_value_cases [OF wf c(2)] show "plain_value v"
  proof
    assume "subtree (config c) p \<noteq> [] \<and> v = VConf (Configuration False (subtree (config c) p))"
    with pl show ?thesis by (simp add: plain_value_def)
  next
    assume "subtree (config c) p = [] \<and> \<not> is_conf v"
    then show ?thesis by (simp add: plain_value_scalar)
  qed
qed


subsection \<open>Sections that are not plain\<close>

text \<open>
  The merge of \<open>_from_configs\<close> goes through \<open>keys()\<close> and \<open>v[k]\<close> of each sub-view.  When
  the section holds the key \<open>"keys"\<close>, the value of that key is taken for the list of
  the keys: here the merged view keeps \<open>"x"\<close> only.
\<close>

lemma merge_of_section_with_keys:
  "set_getitem \<lparr>configs = [Configuration False
        [(''a.keys'', VStr ''x''), (''a.x'', VInt 5), (''a.z'', VInt 7)]], writable = False\<rparr> ''a''
     = Inr (VConf (Configuration False [(''x'', VInt 5)]))"
  by (simp add: set_eval conf_eval str_eval)

section \<open>Claims\<close>

text \<open>
  C1 (as amended).  On a well formed store, \<open>__getitem__\<close> looks for the keys under
  \<open>path + "."\<close> first: if there are any, it returns a new \<open>Configuration\<close> over them, with
  the prefix cut off, whether or not \<open>path\<close> is itself a stored key.  Only when there are
  none does an exact match return the stored scalar, and when there is no exact match
  either it raises \<open>KeyError(path)\<close>.
\<close>

theorem getitem_prefix_before_exact:
  assumes "well_formed c"
  shows "(subtree (config c) path \<noteq> [] \<longrightarrow>
            getitem c path = Inr (VConf (Configuration False (subtree (config c) path))))
       \<and> (subtree (config c) path = [] \<longrightarrow> map_of (config c) path = Some v \<longrightarrow> \<not> is_conf v \<longrightarrow>
            getitem c path = Inr v)
       \<and> (subtree (config c) path = [] \<longrightarrow> map_of (config c) path = None \<longrightarrow>
            getitem c path = Inl (KeyError path))"
  by (simp add: getitem_well_formed [OF assms])

text \<open>
  C1 as stated fails: \<open>"a"\<close> is stored with the scalar 1 and \<open>"a.b"\<close> is stored too; the
  read of \<open>"a"\<close> returns the sub-view over \<open>"b"\<close>, not 1.
\<close>

theorem getitem_exact_first_counterexample:
  "map_of (config (Configuration False [(''a'', VInt 1), (''a.b'', VInt 2)])) ''a'' = Some (VInt 1)
   \<and> getitem (Configuration False [(''a'', VInt 1), (''a.b'', VInt 2)]) ''a''
       = Inr (VConf (Configuration False [(''b'', VInt 2)]))
   \<and> getitem (Configuration False [(''a'', VInt 1), (''a.b'', VInt 2)]) ''a'' \<noteq> Inr (VInt 1)"
  by (simp add: conf_eval str_eval)

theorem getitem_prefix_before_exact_witness:
  "well_formed (Configuration False [(''a'', VInt 1), (''a.b'', VInt 2), (''c'', VInt 3)])
   \<and> getitem (Configuration False [(''a'', VInt 1), (''a.b'', VInt 2), (''c'', VInt 3)]) ''a''
       = Inr (VConf (Configuration False [(''b'', VInt 2)]))
   \<and> getitem (Configuration False [(''a'', VInt 1), (''a.b'', VInt 2), (''c'', VInt 3)]) ''c''
       = Inr (VInt 3)
   \<and> getitem (Configuration False [(''a'', VInt 1), (''a.b'', VInt 2), (''c'', VInt 3)]) ''d''
       = Inl (KeyError ''d'')"
proof -
  let ?c = "Configuration False [(''a'', VInt 1), (''a.b'', VInt 2), (''c'', VInt 3)]"
  have wf: "well_formed ?c"
    by (simp add: well_formed_def)
  have a: "subtree (config ?c) ''a'' = [(''b'', VInt 2)]"
    by (simp add: subtree_def startswith_def)
  have c: "subtree (config ?c) ''c'' = []" "map_of (config ?c) ''c'' = Some (VInt 3)"
    by (simp_all add: subtree_def startswith_def)
  have d: "subtree (config ?c) ''d'' = []" "map_of (config ?c) ''d'' = None"
    by (simp_all add: subtree_def startswith_def)
  show ?thesis
    using wf getitem_prefix_before_exact [OF wf, of "''a''"]
      getitem_prefix_before_exact [OF wf, of "''c''" "VInt 3"]
      getitem_prefix_before_exact [OF wf, of "''d''"] a c d
    by simp
qed

text \<open>
  C2 (as amended).  Take a \<open>ConfigurationSet\<close> whose layers are well formed and hold a
  plain section under \<open>p + "."\<close>.  When the first layer that does not raise on \<open>p\<close> holds
  keys under \<open>p + "."\<close>, reading \<open>p\<close> returns one \<open>Configuration\<close> merged from the
  sub-views of all the layers, the last layer first: each key \<open>r\<close> of it has the value
  that the first layer holding \<open>p + "." + r\<close> gives it (\<open>map_of\<close> of the layers' dicts one
  after the other finds that layer), so the higher layer wins on a shared key and the
  keys of the lower layers are kept.  Layers that hold \<open>p\<close> as a scalar are skipped.
\<close>

theorem set_getitem_merges_sub_views:
  assumes "\<forall>x \<in> set (configs s). well_formed x \<and> plain (subtree (config x) p)"
    and "configs s = pre @ c # post"
    and "\<forall>x \<in> set pre. isl (getitem x p)"
    and "subtree (config c) p \<noteq> []"
  shows "\<exists>view. set_getitem s p = Inr (VConf view)
           \<and> distinct (map fst (as_dict view))
           \<and> (\<forall>r. map_of (as_dict view) r
                     = map_of (concat (map config (configs s))) (p @ ''.'' @ r))"
proof -
  let ?attr = "\<lambda>x. getitem x p"
  let ?vs = "layer_values ?attr (configs s)"
  have wf: "\<forall>x \<in> set (configs s). well_formed x"
    using assms(1) by simp
  have wfc: "well_formed c"
    using assms(1,2) by simp
  have c: "getitem c p = Inr (VConf (Configuration False (subtree (config c) p)))"
    using assms(4) by (simp add: getitem_well_formed [OF wfc])
  have vs: "?vs = VConf (Configuration False (subtree (config c) p)) # layer_values ?attr post"
    using assms(3) c
    by (simp add: assms(2) layer_values_append layer_values_raising) (simp add: layer_values_def)
  have read: "set_getitem s p = merge_values (rev ?vs)"
    by (simp add: set_getitem_def from_configs_def collect_eq) (simp add: vs)
  from merge_values_plain [OF plain_layer_values [OF assms(1)]]
  obtain merged where m: "merge_values (rev ?vs) = Inr (VConf (Configuration False merged))"
    "distinct (map fst merged)" "map_of merged = map_of (concat (map sub_config ?vs))"
    by blast
  have "map_of merged r = map_of (concat (map config (configs s))) (p @ ''.'' @ r)" for r
  proof -
    have "map_of merged r = map_of (subtree (concat (map config (configs s))) p) r"
      by (simp add: m(3) sub_config_layers [OF wf] subtree_concat comp_def)
    then show ?thesis by (simp only: map_of_subtree)
  qed
  with m(1,2) read show ?thesis
    by (simp add: as_dict_def)
qed

text \<open>
  C2 as stated fails.  In the first set the second and the third layer resolve \<open>"a"\<close> to
  a sub-view, the first one holds the scalar 1 under \<open>"a"\<close>, and the read returns 1, not
  a merged view.  In the second set both layers resolve \<open>"a"\<close> to a sub-view and share
  the key \<open>"b"\<close>, where the higher layer has the leaf 1; that layer also holds \<open>"a.b.c"\<close>,
  so its sub-view reads \<open>"b"\<close> as a section (as in C1), and the merged view has that
  section under \<open>"b"\<close>, not 1.
\<close>

theorem set_getitem_merge_counterexample:
  "set_getitem \<lparr>configs = [Configuration False [(''a'', VInt 1)],
                            Configuration False [(''a.b'', VInt 2)],
                            Configuration False [(''a.c'', VInt 3)]], writable = False\<rparr> ''a''
     = Inr (VInt 1)
   \<and> getitem (Configuration False [(''a.b'', VInt 2)]) ''a''
     = Inr (VConf (Configuration False [(''b'', VInt 2)]))
   \<and> getitem (Configuration False [(''a.c'', VInt 3)]) ''a''
     = Inr (VConf (Configuration False [(''c'', VInt 3)]))
   \<and> set_getitem \<lparr>configs = [Configuration False [(''a.b'', VInt 1), (''a.b.c'', VInt 2)],
                              Configuration False [(''a.b'', VInt 9)]], writable = False\<rparr> ''a''
     = Inr (VConf (Configuration False
         [(''b'', VConf (Configuration False [(''c'', VInt 2)])), (''b.c'', VInt 2)]))"
  by (simp add: set_eval conf_eval str_eval)

text \<open>
  The witness of C2 is the example of the claim: the layers \<open>{"a.b": 1, "a.c": 2}\<close> and
  \<open>{"a.b": 9, "a.d": 4}\<close>; the merged view is \<open>b = 1, d = 4, c = 2\<close>, the same mapping
  as \<open>{"b": 1, "c": 2, "d": 4}\<close>.
\<close>

theorem set_getitem_merges_sub_views_witness:
  "set_getitem \<lparr>configs = [Configuration False [(''a.b'', VInt 1), (''a.c'', VInt 2)],
                            Configuration False [(''a.b'', VInt 9), (''a.d'', VInt 4)]],
                 writable = False\<rparr> ''a''
     = Inr (VConf (Configuration False [(''b'', VInt 1), (''d'', VInt 4), (''c'', VInt 2)]))
   \<and> map_of [(''b'', VInt 1), (''d'', VInt 4), (''c'', VInt 2)]
     = map_of [(''b'', VInt 1), (''c'', VInt 2), (''d'', VInt 4)]
   \<and> (\<exists>view. set_getitem \<lparr>configs = [Configuration False [(''a.b'', VInt 1), (''a.c'', VInt 2)],
                            Configuration False [(''a.b'', VInt 9), (''a.d'', VInt 4)]],
                 writable = False\<rparr> ''a'' = Inr (VConf view)
         \<and> map_of (as_dict view) ''b'' = Some (VInt 1)
         \<and> map_of (as_dict view) ''c'' = Some (VInt 2)
         \<and> map_of (as_dict view) ''d'' = Some (VInt 4))"
proof -
  let ?l0 = "Configuration False [(''a.b'', VInt 1), (''a.c'', VInt 2)]"
  let ?l1 = "Configuration False [(''a.b'', VInt 9), (''a.d'', VInt 4)]"
  let ?s = "\<lparr>configs = [?l0, ?l1], writable = False\<rparr>"
  have s0: "subtree (config ?l0) ''a'' = [(''b'', VInt 1), (''c'', VInt 2)]"
    and s1: "subtree (config ?l1) ''a'' = [(''b'', VInt 9), (''d'', VInt 4)]"
    by (simp_all add: subtree_def startswith_def)
  have layers: "\<forall>x \<in> set (configs ?s). well_formed x \<and> plain (subtree (config x) ''a'')"
    by (simp add: well_formed_def s0 s1) (simp add: plain_def subtree_def startswith_def)
  have split: "configs ?s = [] @ ?l0 # [?l1]"
    by simp
  have above: "\<forall>x \<in> set []. isl (getitem x ''a'')"
    by simp
  have sub: "subtree (config ?l0) ''a'' \<noteq> []"
    by (simp only: s0) simp
  from set_getitem_merges_sub_views [OF layers split above sub]
  obtain view where view: "set_getitem ?s ''a'' = Inr (VConf view)"
    "\<forall>r. map_of (as_dict view) r = map_of (concat (map config (configs ?s))) (''a'' @ ''.'' @ r)"
    by blast
  have b: "map_of (as_dict view) ''b'' = Some (VInt 1)"
    and c: "map_of (as_dict view) ''c'' = Some (VInt 2)"
    and d: "map_of (as_dict view) ''d'' = Some (VInt 4)"
    by (simp_all add: view(2))
  have eval: "set_getitem ?s ''a''
     = Inr (VConf (Configuration False [(''b'', VInt 1), (''d'', VInt 4), (''c'', VInt 2)]))"
    by (simp add: set_eval conf_eval str_eval)
  have same: "map_of [(''b'', VInt 1), (''d'', VInt 4), (''c'', VInt 2)]
     = map_of [(''b'', VInt 1), (''c'', VInt 2), (''d'', VInt 4)]"
    by (rule ext) simp
  from view(1) b c d eval same show ?thesis
    by blast
qed

text \<open>
  C3 (as amended).  On a well formed store, a key that is neither stored nor a prefix of
  a stored key (no stored key lies under \<open>k + "."\<close>) makes \<open>__getitem__\<close> raise
  \<open>KeyError(k)\<close>.  After \<open>s[k] = v\<close> with a scalar \<open>v\<close>, \<open>s[k]\<close> returns \<open>v\<close> when no stored
  key lies under \<open>k + "."\<close> and, with \<open>lowercase_keys\<close>, \<open>k\<close> is lower case.
\<close>

theorem getitem_absent_and_after_setitem:
  assumes "well_formed c"
  shows "(map_of (config c) k = None \<and> subtree (config c) k = [] \<longrightarrow>
            getitem c k = Inl (KeyError k))
       \<and> (\<not> is_conf v \<and> subtree (config c) k = [] \<and> (lowercase c \<longrightarrow> lower k = k) \<longrightarrow>
            getitem (setitem c k (Leaf v)) k = Inr v)"
proof (intro conjI impI)
  assume "map_of (config c) k = None \<and> subtree (config c) k = []"
  then show "getitem c k = Inl (KeyError k)"
    by (simp add: getitem_well_formed [OF assms])
next
  assume a: "\<not> is_conf v \<and> subtree (config c) k = [] \<and> (lowercase c \<longrightarrow> lower k = k)"
  then have s: "setitem c k (Leaf v) = Configuration (lowercase c) (AList.update k v (config c))"
    by (auto simp: setitem_leaf)
  have wf: "well_formed (Configuration (lowercase c) (AList.update k v (config c)))"
    using well_formed_setitem [OF assms, of k "Leaf v"] by (simp only: s)
  have "subtree (AList.update k v (config c)) k = []"
    using a by (simp add: subtree_update_other not_startswith_self)
  moreover have "map_of (AList.update k v (config c)) k = Some v"
    by (simp add: AList.update_conv')
  ultimately show "getitem (setitem c k (Leaf v)) k = Inr v"
    using a by (simp add: s getitem_well_formed [OF wf])
qed

text \<open>
  C3 as stated fails: the store holds \<open>"a.b"\<close>; after \<open>s["a"] = 5\<close> the read of \<open>"a"\<close>
  returns the sub-view over \<open>"b"\<close>, not 5.
\<close>

theorem setitem_then_getitem_counterexample:
  "getitem (setitem (Configuration False [(''a.b'', VInt 1)]) ''a'' (Leaf (VInt 5))) ''a''
     = Inr (VConf (Configuration False [(''b'', VInt 1)]))
   \<and> getitem (setitem (Configuration False [(''a.b'', VInt 1)]) ''a'' (Leaf (VInt 5))) ''a''
     \<noteq> Inr (VInt 5)"
  by (simp add: setitem_def update_def conf_eval str_eval)

theorem getitem_absent_and_after_setitem_witness:
  "well_formed (Configuration False [(''a.b'', VInt 1)])
   \<and> getitem (Configuration False [(''a.b'', VInt 1)]) ''x'' = Inl (KeyError ''x'')
   \<and> getitem (setitem (Configuration False [(''a.b'', VInt 1)]) ''x'' (Leaf (VInt 5))) ''x''
       = Inr (VInt 5)"
proof -
  let ?c = "Configuration False [(''a.b'', VInt 1)]"
  have wf: "well_formed ?c"
    by (simp add: well_formed_def)
  have x: "subtree (config ?c) ''x'' = []" "map_of (config ?c) ''x'' = None"
    by (simp_all add: subtree_def startswith_def)
  show ?thesis
    using wf x getitem_absent_and_after_setitem [OF wf, of "''x''" "VInt 5"]
    by simp
qed

text \<open>
  C4.  \<open>_from_configs\<close> calls the operation on every layer in order.  When the first
  layer that does not raise returns a value that is no \<open>Configuration\<close>, that value is
  the result; when every layer raises, the exception of the last layer is raised.
\<close>

theorem from_configs_first_value_or_last_error:
  "(configs s = pre @ c # post \<and> (\<forall>x \<in> set pre. isl (attr x)) \<and> attr c = Inr v \<and> \<not> is_conf v \<longrightarrow>
      from_configs s attr = Inr v)
   \<and> (configs s \<noteq> [] \<and> (\<forall>x \<in> set (configs s). isl (attr x)) \<longrightarrow>
      from_configs s attr = Inl (projl (attr (last (configs s)))))"
proof (intro conjI impI)
  assume a: "configs s = pre @ c # post \<and> (\<forall>x \<in> set pre. isl (attr x)) \<and> attr c = Inr v \<and> \<not> is_conf v"
  then have "layer_values attr (configs s) = v # layer_values attr post"
    by (simp add: layer_values_append layer_values_raising) (simp add: layer_values_def)
  then show "from_configs s attr = Inr v"
    using a by (simp add: from_configs_def collect_eq)
next
  assume a: "configs s \<noteq> [] \<and> (\<forall>x \<in> set (configs s). isl (attr x))"
  then have "layer_values attr (configs s) = []"
    by (simp add: layer_values_raising)
  moreover have "isl (attr (last (configs s)))"
    using a by simp
  ultimately show "from_configs s attr = Inl (projl (attr (last (configs s))))"
    using a by (simp add: from_configs_def collect_eq last_error_raising)
qed

theorem from_configs_first_value_or_last_error_witness:
  "set_getitem \<lparr>configs = [Configuration False [(''k'', VConf (Configuration False []))],
                            Configuration False [(''k'', VInt 2)],
                            Configuration False [(''k'', VInt 3)]], writable = False\<rparr> ''k''
     = Inr (VInt 2)
   \<and> set_getitem \<lparr>configs = [Configuration False [(''k'', VConf (Configuration False []))],
                              Configuration False [(''x'', VInt 1)]], writable = False\<rparr> ''k''
     = Inl (KeyError ''k'')
   \<and> set_getitem \<lparr>configs = [Configuration False [(''x'', VInt 1)],
                              Configuration False [(''k'', VConf (Configuration False []))]],
                   writable = False\<rparr> ''k''
     = Inl AttributeError"
proof -
  let ?e = "Configuration False [(''k'', VConf (Configuration False []))]"
  let ?x = "Configuration False [(''x'', VInt 1)]"
  let ?k = "Configuration False [(''k'', VInt 2)]"
  let ?k' = "Configuration False [(''k'', VInt 3)]"
  have e: "getitem ?e ''k'' = Inl AttributeError"
    and x: "getitem ?x ''k'' = Inl (KeyError ''k'')"
    and k: "getitem ?k ''k'' = Inr (VInt 2)"
    by (simp_all add: conf_eval str_eval)
  have "set_getitem \<lparr>configs = [?e, ?k, ?k'], writable = False\<rparr> ''k'' = Inr (VInt 2)"
    using from_configs_first_value_or_last_error
      [of "\<lparr>configs = [?e, ?k, ?k'], writable = False\<rparr>" "[?e]" ?k "[?k']"
          "\<lambda>c. getitem c ''k''" "VInt 2"] e k
    by (simp add: set_getitem_def)
  moreover have "set_getitem \<lparr>configs = [?e, ?x], writable = False\<rparr> ''k''
                 = Inl (KeyError ''k'')"
    using from_configs_first_value_or_last_error
      [of "\<lparr>configs = [?e, ?x], writable = False\<rparr>" _ _ _ "\<lambda>c. getitem c ''k''"] e x
    by (simp add: set_getitem_def)
  moreover have "set_getitem \<lparr>configs = [?x, ?e], writable = False\<rparr> ''k''
                 = Inl AttributeError"
    using from_configs_first_value_or_last_error
      [of "\<lparr>configs = [?x, ?e], writable = False\<rparr>" _ _ _ "\<lambda>c. getitem c ''k''"] e x
    by (simp add: set_getitem_def)
  ultimately show ?thesis by simp
qed

text \<open>
  C5.  On a well formed store, \<open>del s[path]\<close> removes the key \<open>path\<close> and every key under
  \<open>path + "."\<close> and leaves the other items as they are; it raises \<open>KeyError\<close> exactly
  when no stored key matches.  The witness is the store \<open>a.b.c, a.b.d, a.x\<close>: deleting
  \<open>"a.b"\<close> leaves \<open>a.x\<close>, and deleting it again raises.
\<close>

theorem delitem_removes_exact_and_prefixed:
  assumes "well_formed c"
  shows "delitem c path =
           (if \<exists>(k, v) \<in> set (config c). matches path k
            then Inr (Configuration (lowercase c)
                        (filter (\<lambda>(k, v). \<not> matches path k) (config c)))
            else Inl (KeyError (no_key_message path)))"
proof -
  define remove where "remove = [k. (k, v) \<leftarrow> config c,
                       (let kl = (if lowercase c then lower k else k)
                        in kl = path \<or> startswith kl (path @ ''.''))]"
  have remove_eq: "remove = [k. (k, v) \<leftarrow> config c, matches path k]"
  proof (cases "lowercase c")
    case False
    then show ?thesis by (simp add: remove_def matches_def)
  next
    case True
    with assms have low: "\<And>k v. (k, v) \<in> set (config c) \<Longrightarrow> lower k = k"
      by (force simp: well_formed_def lowered_def)
    have "remove = concat (map (\<lambda>(k, v). if lower k = path \<or> startswith (lower k) (path @ ''.'')
                          then [k] else []) (config c))"
      using True by (simp add: remove_def Let_def)
    also have "\<dots> = concat (map (\<lambda>(k, v). if matches path k then [k] else []) (config c))"
      by (rule arg_cong [where f = concat], rule map_cong) (auto simp: low matches_def)
    finally show ?thesis .
  qed
  have set_remove: "set remove = {k. \<exists>v. (k, v) \<in> set (config c) \<and> matches path k}"
    unfolding remove_eq by auto
  have del: "delitem c path =
      (if remove = [] then Inl (KeyError (no_key_message path))
       else Inr (Configuration (lowercase c) (fold AList.delete remove (config c))))"
    by (simp add: delitem_def remove_def)
  have filt: "filter (\<lambda>(k, v). k \<notin> set remove) (config c)
              = filter (\<lambda>(k, v). \<not> matches path k) (config c)"
    by (rule filter_cong) (auto simp: set_remove)
  have "remove = [] \<longleftrightarrow> \<not> (\<exists>(k, v) \<in> set (config c). matches path k)"
  proof -
    have "remove = [] \<longleftrightarrow> set remove = {}" by simp
    also have "\<dots> \<longleftrightarrow> \<not> (\<exists>(k, v) \<in> set (config c). matches path k)"
      unfolding set_remove by auto
    finally show ?thesis .
  qed
  then show ?thesis
    by (simp add: del fold_delete filt)
qed

theorem delitem_removes_exact_and_prefixed_witness:
  "well_formed (Configuration False [(''a.b.c'', VInt 1), (''a.b.d'', VInt 2), (''a.x'', VInt 3)])
   \<and> delitem (Configuration False [(''a.b.c'', VInt 1), (''a.b.d'', VInt 2), (''a.x'', VInt 3)])
        ''a.b''
      = Inr (Configuration False [(''a.x'', VInt 3)])
   \<and> well_formed (Configuration False [(''a.x'', VInt 3)])
   \<and> delitem (Configuration False [(''a.x'', VInt 3)]) ''a.b''
      = Inl (KeyError (no_key_message ''a.b''))"
proof -
  let ?c = "Configuration False [(''a.b.c'', VInt 1), (''a.b.d'', VInt 2), (''a.x'', VInt 3)]"
  let ?c' = "Configuration False [(''a.x'', VInt 3)]"
  have wf: "well_formed ?c" and wf': "well_formed ?c'"
    by (simp_all add: well_formed_def)
  show ?thesis
    using wf wf' delitem_removes_exact_and_prefixed [OF wf, of "''a.b''"]
      delitem_removes_exact_and_prefixed [OF wf', of "''a.b''"]
    by (simp add: matches_def startswith_def)
qed

text \<open>
  C6.  When \<open>self[item]\<close> is a string, \<open>get_bool\<close> strips and lower-cases it and returns
  \<open>True\<close> on \<open>t, true, y, yes, on, 1\<close>, \<open>False\<close> on \<open>f, false, n, no, off, 0\<close> and the empty
  string, and raises \<open>ValueError\<close> on every other string.  Stripping is pinned by the
  second part: a string made of white space, a core that neither starts nor ends with
  white space, and white space again is judged by its core, lower-cased, alone.  The
  witness is \<open>"Yes"\<close>, \<open>"off"\<close> and \<open>"maybe"\<close>, and strings with blanks, a tab and a
  newline around and inside the word.
\<close>

theorem get_bool_of_string:
  "(getitem c k = Inr (VStr s) \<longrightarrow>
      get_bool str_conf c k =
        (if lower (strip s) \<in> {''t'', ''true'', ''y'', ''yes'', ''on'', ''1''} then Inr True
         else if lower (strip s) \<in> {''f'', ''false'', ''n'', ''no'', ''off'', ''0'', []}
              then Inr False
         else Inl ValueError))
   \<and> (getitem c k = Inr (VStr (pre @ core @ post))
        \<and> (\<forall>x \<in> set pre. is_space x) \<and> (\<forall>x \<in> set post. is_space x)
        \<and> (core = [] \<or> (\<not> is_space (hd core) \<and> \<not> is_space (last core))) \<longrightarrow>
      get_bool str_conf c k =
        (if lower core \<in> {''t'', ''true'', ''y'', ''yes'', ''on'', ''1''} then Inr True
         else if lower core \<in> {''f'', ''false'', ''n'', ''no'', ''off'', ''0'', []}
              then Inr False
         else Inl ValueError))"
proof (intro conjI impI)
  assume "getitem c k = Inr (VStr s)"
  then show "get_bool str_conf c k =
        (if lower (strip s) \<in> {''t'', ''true'', ''y'', ''yes'', ''on'', ''1''} then Inr True
         else if lower (strip s) \<in> {''f'', ''false'', ''n'', ''no'', ''off'', ''0'', []}
              then Inr False
         else Inl ValueError)"
    by (simp add: get_bool_def bool_text_def TRUTH_TEXT_def FALSE_TEXT_def)
next
  assume a: "getitem c k = Inr (VStr (pre @ core @ post))
        \<and> (\<forall>x \<in> set pre. is_space x) \<and> (\<forall>x \<in> set post. is_space x)
        \<and> (core = [] \<or> (\<not> is_space (hd core) \<and> \<not> is_space (last core)))"
  then have "strip (pre @ core @ post) = core"
    by (intro strip_core) simp_all
  with a show "get_bool str_conf c k =
        (if lower core \<in> {''t'', ''true'', ''y'', ''yes'', ''on'', ''1''} then Inr True
         else if lower core \<in> {''f'', ''false'', ''n'', ''no'', ''off'', ''0'', []}
              then Inr False
         else Inl ValueError)"
    by (simp add: get_bool_def bool_text_def TRUTH_TEXT_def FALSE_TEXT_def)
qed

theorem get_bool_of_string_witness:
  "get_bool (\<lambda>c. Inl TypeError) (Configuration False [(''k'', VStr ''Yes'')]) ''k'' = Inr True
   \<and> get_bool (\<lambda>c. Inl TypeError) (Configuration False [(''k'', VStr ''off'')]) ''k'' = Inr False
   \<and> get_bool (\<lambda>c. Inl TypeError) (Configuration False [(''k'', VStr ''maybe'')]) ''k''
       = Inl ValueError
   \<and> get_bool (\<lambda>c. Inl TypeError) (Configuration False [(''k'', VStr ''  Yes '')]) ''k''
       = Inr True
   \<and> get_bool (\<lambda>c. Inl TypeError)
         (Configuration False [(''k'', VStr (CHR 0x09 # ''OFF'' @ [CHR 0x0A]))]) ''k''
       = Inr False
   \<and> get_bool (\<lambda>c. Inl TypeError) (Configuration False [(''k'', VStr '' y es '')]) ''k''
       = Inl ValueError
   \<and> get_bool (\<lambda>c. Inl TypeError) (Configuration False [(''k'', VStr ''   '')]) ''k''
       = Inr False"
proof -
  let ?str = "\<lambda>c :: configuration. Inl TypeError :: error + string"
  have y: "getitem (Configuration False [(''k'', VStr ''Yes'')]) ''k'' = Inr (VStr ''Yes'')"
    and f: "getitem (Configuration False [(''k'', VStr ''off'')]) ''k'' = Inr (VStr ''off'')"
    and m: "getitem (Configuration False [(''k'', VStr ''maybe'')]) ''k'' = Inr (VStr ''maybe'')"
    by (simp_all add: conf_eval str_eval)
  have ys: "getitem (Configuration False [(''k'', VStr ''  Yes '')]) ''k''
              = Inr (VStr (''  '' @ ''Yes'' @ '' ''))"
    and fs: "getitem (Configuration False [(''k'', VStr (CHR 0x09 # ''OFF'' @ [CHR 0x0A]))]) ''k''
              = Inr (VStr ([CHR 0x09] @ ''OFF'' @ [CHR 0x0A]))"
    and ms: "getitem (Configuration False [(''k'', VStr '' y es '')]) ''k''
              = Inr (VStr ('' '' @ ''y es'' @ '' ''))"
    and bs: "getitem (Configuration False [(''k'', VStr ''   '')]) ''k''
              = Inr (VStr (''   '' @ [] @ []))"
    by (simp_all add: conf_eval str_eval)
  have "get_bool ?str (Configuration False [(''k'', VStr ''Yes'')]) ''k'' = Inr True"
    using get_bool_of_string [of _ _ "''Yes''" ?str] y by (simp add: str_eval)
  moreover have "get_bool ?str (Configuration False [(''k'', VStr ''off'')]) ''k'' = Inr False"
    using get_bool_of_string [of _ _ "''off''" ?str] f by (simp add: str_eval)
  moreover have "get_bool ?str (Configuration False [(''k'', VStr ''maybe'')]) ''k''
                 = Inl ValueError"
    using get_bool_of_string [of _ _ "''maybe''" ?str] m by (simp add: str_eval)
  moreover have "get_bool ?str (Configuration False [(''k'', VStr ''  Yes '')]) ''k'' = Inr True"
    using get_bool_of_string [of "Configuration False [(''k'', VStr ''  Yes '')]" "''k''" _ ?str
        "''  ''" "''Yes''" "'' ''"] ys
    by (simp add: lower_def lower_char_def char_of_def bit_0 is_space_def)
  moreover have "get_bool ?str
         (Configuration False [(''k'', VStr (CHR 0x09 # ''OFF'' @ [CHR 0x0A]))]) ''k'' = Inr False"
    using get_bool_of_string
        [of "Configuration False [(''k'', VStr (CHR 0x09 # ''OFF'' @ [CHR 0x0A]))]" "''k''" _ ?str
        "[CHR 0x09]" "''OFF''" "[CHR 0x0A]"] fs
    by (simp add: lower_def lower_char_def char_of_def bit_0 is_space_def)
  moreover have "get_bool ?str (Configuration False [(''k'', VStr '' y es '')]) ''k''
                 = Inl ValueError"
    using get_bool_of_string [of "Configuration False [(''k'', VStr '' y es '')]" "''k''" _ ?str
        "'' ''" "''y es''" "'' ''"] ms
    by (simp add: lower_def lower_char_def char_of_def bit_0 is_space_def)
  moreover have "get_bool ?str (Configuration False [(''k'', VStr ''   '')]) ''k'' = Inr False"
    using get_bool_of_string [of "Configuration False [(''k'', VStr ''   '')]" "''k''" _ ?str
        "''   ''" "[]" "[]"] bs
    by (simp add: lower_def lower_char_def char_of_def bit_0 is_space_def)
  ultimately show ?thesis by simp
qed

text \<open>
  C7.  Flattening is idempotent: for every nested mapping and both settings of
  \<open>lowercase_keys\<close>, flattening the flattened mapping returns it unchanged; and a mapping
  that is already flat (distinct keys, no dict as a value; lower-case keys when
  \<open>lowercase_keys\<close> is set) is returned as it is.
\<close>

theorem flatten_dict_idempotent:
  "flatten_dict lc (as_nested (flatten_dict lc m)) = flatten_dict lc m
   \<and> (distinct (map fst d) \<and> (lc \<longrightarrow> lowered d) \<longrightarrow> flatten_dict lc (as_nested d) = d)"
proof
  show "flatten_dict lc (as_nested (flatten_dict lc m)) = flatten_dict lc m"
    by (rule flatten_dict_fixed) (simp_all add: distinct_flatten_dict lowered_flatten_dict_aux)
  show "distinct (map fst d) \<and> (lc \<longrightarrow> lowered d) \<longrightarrow> flatten_dict lc (as_nested d) = d"
    by (simp add: flatten_dict_fixed)
qed

theorem flatten_dict_idempotent_witness:
  "flatten_dict True (as_nested (flatten_dict True
       [(''A'', Dict [(''B'', Leaf (VInt 1)), (''c'', Leaf (VInt 2))]), (''D'', Leaf (VInt 3))]))
     = [(''a.b'', VInt 1), (''a.c'', VInt 2), (''d'', VInt 3)]
   \<and> flatten_dict True (as_nested [(''a.b'', VInt 1), (''d'', VInt 3)])
     = [(''a.b'', VInt 1), (''d'', VInt 3)]"
proof -
  have "flatten_dict True
       [(''A'', Dict [(''B'', Leaf (VInt 1)), (''c'', Leaf (VInt 2))]), (''D'', Leaf (VInt 3))]
     = [(''a.b'', VInt 1), (''a.c'', VInt 2), (''d'', VInt 3)]"
    by (simp add: dict_of_def dict_update_def str_eval)
  moreover have "lowered [(''a.b'', VInt 1), (''d'', VInt 3)]"
    by (simp add: lowered_def str_eval)
  ultimately show ?thesis
    using flatten_dict_idempotent [of True
        "[(''A'', Dict [(''B'', Leaf (VInt 1)), (''c'', Leaf (VInt 2))]), (''D'', Leaf (VInt 3))]"
        "[(''a.b'', VInt 1), (''d'', VInt 3)]"]
    by simp
qed

text \<open>
  C8.  On a \<open>ConfigurationSet\<close> built by the constructor from the layers \<open>cs\<close>, the first
  mutation puts one new layer, the empty \<open>Configuration\<close> with that mutation written into
  it, before \<open>cs\<close> and sets \<open>_writable\<close>; after any run of mutations the set is that one
  layer, with all the mutations written into it in order, before the unchanged \<open>cs\<close>,
  and \<open>_writable\<close> stays set.
\<close>

theorem writable_layer_invariant:
  assumes "set_init cs = Inr s"
  shows "mutate s m = Inr \<lparr>configs = write_layer m (init [] (lowercase (hd cs))) # cs,
                           writable = True\<rparr>
       \<and> (ms \<noteq> [] \<longrightarrow>
            mutate_all s ms
              = Inr \<lparr>configs = fold write_layer ms (init [] (lowercase (hd cs))) # cs,
                     writable = True\<rparr>)"
proof -
  from assms have cs: "cs \<noteq> []" and s: "s = \<lparr>configs = cs, writable = False\<rparr>"
    by (auto simp: set_init_def split: if_splits)
  have first: "mutate s m = Inr \<lparr>configs = write_layer m (init [] (lowercase (hd cs))) # cs,
                                writable = True\<rparr>" for m
    using mutate_not_writable [of s m] cs by (simp add: s)
  have "mutate_all s ms
          = Inr \<lparr>configs = fold write_layer ms (init [] (lowercase (hd cs))) # cs,
                  writable = True\<rparr>" if "ms \<noteq> []"
  proof -
    from that obtain m' ms' where ms: "ms = m' # ms'" by (cases ms) simp_all
    show ?thesis
      by (simp add: ms first mutate_all_writable)
  qed
  with first show ?thesis by simp
qed

theorem writable_layer_invariant_witness:
  "set_init [Configuration False [(''a'', VInt 1)]]
     = Inr \<lparr>configs = [Configuration False [(''a'', VInt 1)]], writable = False\<rparr>
   \<and> mutate_all \<lparr>configs = [Configuration False [(''a'', VInt 1)]], writable = False\<rparr>
        [SetItem ''a'' (Leaf (VInt 2)), Update [(''b'', Dict [(''c'', Leaf (VInt 3))])]]
     = Inr \<lparr>configs = [Configuration False [(''a'', VInt 2), (''b.c'', VInt 3)],
                        Configuration False [(''a'', VInt 1)]],
            writable = True\<rparr>"
proof -
  have i: "set_init [Configuration False [(''a'', VInt 1)]]
     = Inr \<lparr>configs = [Configuration False [(''a'', VInt 1)]], writable = False\<rparr>"
    by (simp add: set_init_def)
  show ?thesis
    using i writable_layer_invariant [OF i,
        of _ "[SetItem ''a'' (Leaf (VInt 2)), Update [(''b'', Dict [(''c'', Leaf (VInt 3))])]]"]
    by (simp add: setitem_def update_def init_def dict_update_def dict_of_def)
qed

text \<open>
  C9.  \<open>Configuration.get(key, default)\<close> is a total function (it has no error result):
  it returns the stored value when \<open>key\<close> is a stored key and \<open>default\<close> in every other
  case, also when keys lie under \<open>key + "."\<close>, where \<open>self[key]\<close> returns a sub-view.
\<close>

theorem get_exact_key_or_default:
  "(map_of (config c) key = Some v \<longrightarrow> get c key dflt = v)
   \<and> (map_of (config c) key = None \<longrightarrow> get c key dflt = dflt)
   \<and> (well_formed c \<and> map_of (config c) key = None \<and> subtree (config c) key \<noteq> [] \<longrightarrow>
        get c key dflt = dflt
        \<and> getitem c key = Inr (VConf (Configuration False (subtree (config c) key))))"
  by (simp add: get_def as_dict_def getitem_well_formed)

theorem get_exact_key_or_default_witness:
  "get (Configuration False [(''a.b'', VInt 1), (''c'', VInt 2)]) ''c'' VNone = VInt 2
   \<and> get (Configuration False [(''a.b'', VInt 1), (''c'', VInt 2)]) ''x'' VNone = VNone
   \<and> get (Configuration False [(''a.b'', VInt 1), (''c'', VInt 2)]) ''a'' VNone = VNone
   \<and> getitem (Configuration False [(''a.b'', VInt 1), (''c'', VInt 2)]) ''a''
       = Inr (VConf (Configuration False [(''b'', VInt 1)]))"
proof -
  let ?c = "Configuration False [(''a.b'', VInt 1), (''c'', VInt 2)]"
  have wf: "well_formed ?c"
    by (simp add: well_formed_def)
  have a: "subtree (config ?c) ''a'' = [(''b'', VInt 1)]"
    by (simp add: subtree_def startswith_def)
  show ?thesis
    using wf a get_exact_key_or_default [of ?c "''c''" "VInt 2" VNone]
      get_exact_key_or_default [of ?c "''x''" _ VNone]
      get_exact_key_or_default [of ?c "''a''" _ VNone]
    by simp
qed

text \<open>
  C10.  Keys are lower-cased when they are stored, not when they are looked up:
  \<open>Configuration({"A": {"B": 1}}, lowercase_keys=True)\<close> stores the one key \<open>"a.b"\<close>;
  \<open>"A.B"\<close> and \<open>"A"\<close> raise \<open>KeyError\<close> and \<open>"a.b"\<close> returns 1.  In general a key that
  is not lower case raises \<open>KeyError\<close> on every configuration built with
  \<open>lowercase_keys\<close>.
\<close>

theorem case_folding_at_storage_only:
  "as_dict (init [(''A'', Dict [(''B'', Leaf (VInt 1))])] True) = [(''a.b'', VInt 1)]
   \<and> getitem (init [(''A'', Dict [(''B'', Leaf (VInt 1))])] True) ''A.B'' = Inl (KeyError ''A.B'')
   \<and> getitem (init [(''A'', Dict [(''B'', Leaf (VInt 1))])] True) ''A'' = Inl (KeyError ''A'')
   \<and> getitem (init [(''A'', Dict [(''B'', Leaf (VInt 1))])] True) ''a.b'' = Inr (VInt 1)
   \<and> (\<forall>m k. lower k \<noteq> k \<longrightarrow> getitem (init m True) k = Inl (KeyError k))"
proof (intro conjI allI impI)
  fix m k
  assume "lower k \<noteq> k"
  then show "getitem (init m True) k = Inl (KeyError k)"
    by (intro lookup_not_folded well_formed_init) (simp_all add: init_def)
qed (simp_all add: as_dict_def conf_eval str_eval)

theorem case_folding_at_storage_only_witness:
  "lower ''Port'' \<noteq> ''Port''
   \<and> getitem (init [(''Port'', Leaf (VInt 80))] True) ''Port'' = Inl (KeyError ''Port'')
   \<and> getitem (init [(''Port'', Leaf (VInt 80))] True) ''port'' = Inr (VInt 80)"
proof -
  have l: "lower ''Port'' \<noteq> ''Port''"
    by (simp add: str_eval)
  have "getitem (init [(''Port'', Leaf (VInt 80))] True) ''port'' = Inr (VInt 80)"
    by (simp add: conf_eval str_eval)
  then show ?thesis
    using l case_folding_at_storage_only by blast
qed

end
